theory Spec2Isabelle
  imports Main
begin

section \<open>The two patterns\<close>

text \<open>
  The program compiles two patterns with Go's \<^verbatim>\<open>regexp\<close> package:
  \<^verbatim>\<open>(?i)id=["']([^"'\s]*review[s]?[^"']*)["']\<close> in \<^verbatim>\<open>findReviewIDs\<close> and
  \<^verbatim>\<open>(?s)\[.*\]\<close> in \<^verbatim>\<open>extractReviewDataUsingLLM\<close>. A pattern is modelled as data: a
  sequence of items, each a character class that is taken once (\<open>One\<close>), at most once
  (\<open>Maybe\<close>, greedy) or any number of times (\<open>Many\<close>, greedy), in three parts: before, inside
  and after the one capturing group. Strings are byte strings; the classes of both patterns
  treat every byte of a character beyond ASCII alike. Under the flag \<^verbatim>\<open>i\<close> a letter of the
  pattern matches both of its ASCII cases (\<open>Fold\<close>); the whitespace class \<^verbatim>\<open>\s\<close> is tab,
  line feed, form feed, carriage return and space. Go folds the letter s with U+017F as well;
  the class \<^verbatim>\<open>[s]\<close> is optional and the class after it takes that character too, so
  neither the match nor the text of the group depends on it.
\<close>

datatype cls = Class "char list" | NegClass "char list" | Fold char | AnyChar

datatype item = One cls | Many cls | Maybe cls

definition lowerASCII :: "char \<Rightarrow> char" where
  "lowerASCII c =
     (case map_of (zip ''ABCDEFGHIJKLMNOPQRSTUVWXYZ'' ''abcdefghijklmnopqrstuvwxyz'') c of
        Some d \<Rightarrow> d | None \<Rightarrow> c)"

fun inCls :: "cls \<Rightarrow> char \<Rightarrow> bool" where
  "inCls (Class cs) c = (c \<in> set cs)"
| "inCls (NegClass cs) c = (c \<notin> set cs)"
| "inCls (Fold l) c = (lowerASCII c = l)"
| "inCls AnyChar c = True"

text \<open>
  \<open>run is s\<close> lists the ways in which the items can consume a prefix of \<open>s\<close>, each with the
  rest of the input, in the order in which a backtracking matcher tries them: a greedy item
  offers its longest prefix first. The head of the list is the match the package returns at
  this position (leftmost-first semantics).
\<close>

fun splitsDown :: "nat \<Rightarrow> string \<Rightarrow> (string \<times> string) list" where
  "splitsDown 0 s = [([], s)]"
| "splitsDown (Suc k) s = (take (Suc k) s, drop (Suc k) s) # splitsDown k s"

fun step :: "item \<Rightarrow> string \<Rightarrow> (string \<times> string) list" where
  "step (One k) [] = []"
| "step (One k) (c # cs) = (if inCls k c then [([c], cs)] else [])"
| "step (Maybe k) [] = [([], [])]"
| "step (Maybe k) (c # cs) = (if inCls k c then [([c], cs), ([], c # cs)] else [([], c # cs)])"
| "step (Many k) s = splitsDown (length (takeWhile (inCls k) s)) s"

fun run :: "item list \<Rightarrow> string \<Rightarrow> (string \<times> string) list" where
  "run [] s = [([], s)]"
| "run (i # is) s =
     concat (map (\<lambda>(a, s'). map (\<lambda>(b, s''). (a @ b, s'')) (run is s')) (step i s))"

record pattern =
  before :: "item list"
  group1 :: "item list"
  after :: "item list"

definition matchAt :: "pattern \<Rightarrow> string \<Rightarrow> (string list \<times> string) option" where
  "matchAt p s =
     (case concat (map (\<lambda>(a, s1). concat (map (\<lambda>(g, s2). map (\<lambda>(b, s3). ([a @ g @ b, g], s3))
                (run (after p) s2)) (run (group1 p) s1))) (run (before p) s)) of
        [] \<Rightarrow> None
      | m # _ \<Rightarrow> Some m)"

text \<open>
  \<^verbatim>\<open>FindAllStringSubmatch(s, -1)\<close> scans from the left and returns, for every match that does
  not overlap an earlier one, the matched text and the text of the group; \<open>k\<close> counts the
  characters of the current match still to be passed. \<^verbatim>\<open>FindString\<close> returns the text of the
  leftmost match, or the empty string. Neither pattern matches the empty string.
\<close>

fun scan :: "pattern \<Rightarrow> nat \<Rightarrow> string \<Rightarrow> string list list" where
  "scan p k [] = []"
| "scan p k (c # cs) =
     (if 0 < k then scan p (k - 1) cs
      else (case matchAt p (c # cs) of
              None \<Rightarrow> scan p 0 cs
            | Some (m, rest) \<Rightarrow> m # scan p (length (hd m) - 1) cs))"

definition FindAllStringSubmatch :: "pattern \<Rightarrow> string \<Rightarrow> string list list" where
  "FindAllStringSubmatch p s = scan p 0 s"

fun FindString :: "pattern \<Rightarrow> string \<Rightarrow> string" where
  "FindString p [] = []"
| "FindString p (c # cs) =
     (case matchAt p (c # cs) of None \<Rightarrow> FindString p cs | Some (m, rest) \<Rightarrow> hd m)"

definition quoteChars :: "char list" where
  "quoteChars = [CHR 0x22, CHR 0x27]"

definition spaceChars :: "char list" where
  "spaceChars = [CHR 0x09, CHR 0x0A, CHR 0x0C, CHR 0x0D, CHR 0x20]"

definition reviewIDPattern :: pattern where
  "reviewIDPattern =
     \<lparr> before = [One (Fold CHR ''i''), One (Fold CHR ''d''), One (Class ''=''), One (Class quoteChars)],
       group1 = [Many (NegClass (quoteChars @ spaceChars))] @ map (\<lambda>c. One (Fold c)) ''review''
                @ [Maybe (Fold CHR ''s''), Many (NegClass quoteChars)],
       after = [One (Class quoteChars)] \<rparr>"

definition jsonRegex :: pattern where
  "jsonRegex = \<lparr> before = [One (Class ''[''), Many AnyChar, One (Class '']'')], group1 = [], after = [] \<rparr>"

text \<open>
  \<^verbatim>\<open>findReviewIDs\<close> exists twice. The one of the service collects the submatches as the keys
  of a map and ranges over the map; Go leaves the order of that iteration open. The keys are
  kept in the order of their insertion and enumerated sorted by a ranking \<open>rank\<close> that stands
  for the choice of the runtime: every enumeration of the keys is of this form. The one of
  \<^verbatim>\<open>src/main.go\<close> (\<open>findReviewIDs_main\<close>) appends every submatch to a slice.
\<close>

fun insertKey :: "string list \<Rightarrow> string \<Rightarrow> string list" where
  "insertKey ks k = (if k \<in> set ks then ks else ks @ [k])"

definition findReviewIDs :: "(string \<Rightarrow> nat) \<Rightarrow> string \<Rightarrow> string list" where
  "findReviewIDs rank html =
     (let matches = FindAllStringSubmatch reviewIDPattern html;
          idSet = foldl (\<lambda>ks m. if 1 < length m then insertKey ks (m ! 1) else ks) [] matches
      in sort_key rank idSet)"

definition findReviewIDs_main :: "string \<Rightarrow> string list" where
  "findReviewIDs_main html =
     (let matches = FindAllStringSubmatch reviewIDPattern html
      in foldl (\<lambda>ids m. if 1 < length m then ids @ [m ! 1] else ids) [] matches)"


section \<open>The parsed document tree and subtree isolation\<close>

text \<open>
  A node of \<^verbatim>\<open>golang.org/x/net/html\<close> with its type, data and attributes; the chain of
  \<^verbatim>\<open>FirstChild\<close> and \<^verbatim>\<open>NextSibling\<close> is the list of children. The closure
  \<^verbatim>\<open>traverse\<close> assigns to the variable \<^verbatim>\<open>section\<close> of the enclosing function: the
  variable is passed in and returned. Its \<^verbatim>\<open>return\<close> leaves the current call only, and the
  loop over the children of the caller goes on (\<open>traverseSiblings\<close>).
\<close>

datatype NodeType = ErrorNode | TextNode | DocumentNode | ElementNode | CommentNode | DoctypeNode | RawNode

record Attribute =
  Namespace :: string
  Key :: string
  Val :: string

datatype Node = Node (Type: NodeType) (Data: string) (Attr: "Attribute list") (Children: "Node list")

definition attrMatches :: "string \<Rightarrow> Attribute list \<Rightarrow> bool" where
  "attrMatches ident attrs = list_ex (\<lambda>attr. Key attr = ''id'' \<and> Val attr = ident) attrs"

fun traverse :: "string \<Rightarrow> Node \<Rightarrow> Node option \<Rightarrow> Node option"
  and traverseSiblings :: "string \<Rightarrow> Node list \<Rightarrow> Node option \<Rightarrow> Node option" where
  "traverse ident (Node ty d attrs cs) section =
     (if ty = ElementNode \<and> attrMatches ident attrs then Some (Node ty d attrs cs)
      else traverseSiblings ident cs section)"
| "traverseSiblings ident [] section = section"
| "traverseSiblings ident (c # cs) section = traverseSiblings ident cs (traverse ident c section)"

definition extractSectionByID :: "Node \<Rightarrow> string \<Rightarrow> Node option" where
  "extractSectionByID doc ident = traverse ident doc None"


section \<open>The collaborators: browser session, completion service, libraries\<close>

text \<open>
  Everything outside the program is a field of \<open>env\<close>. The type \<open>'w\<close> is the state of the
  world: the browser session, the completion service, the log and the runtime; an operation
  returns its result and the new state. An error is its message, as built by
  \<^verbatim>\<open>fmt.Errorf\<close> with \<^verbatim>\<open>%v\<close>. \<^verbatim>\<open>html.Parse\<close>, \<^verbatim>\<open>html.Render\<close> and
  \<^verbatim>\<open>json.Unmarshal\<close> into a slice of reviews are functions of their argument. The options
  of the completion call (temperature 0.8, at most 4096 tokens) are constants of the program and
  belong to \<open>GenerateFromSinglePrompt\<close>. \<open>MapOrder\<close> is the ranking by which the runtime
  enumerates the keys of a map in the current state.
\<close>

record Review =
  Title :: string
  Body :: string
  Rating :: string
  Reviewer :: string

record ('w, 'el) env =
  Get :: "string \<Rightarrow> 'w \<Rightarrow> string option \<times> 'w"
  SetImplicitWaitTimeout :: "nat \<Rightarrow> 'w \<Rightarrow> string option \<times> 'w"
  PageSource :: "'w \<Rightarrow> (string + string) \<times> 'w"
  FindElement :: "string \<Rightarrow> 'w \<Rightarrow> (string + 'el) \<times> 'w"
  ExecuteScript :: "string \<Rightarrow> 'w \<Rightarrow> string option \<times> 'w"
  Click :: "'el \<Rightarrow> 'w \<Rightarrow> string option \<times> 'w"
  Sleep :: "nat \<Rightarrow> 'w \<Rightarrow> 'w"
  GenerateFromSinglePrompt :: "string \<Rightarrow> 'w \<Rightarrow> (string + string) \<times> 'w"
  Parse :: "string \<Rightarrow> string + Node"
  Render :: "Node \<Rightarrow> string"
  Unmarshal :: "string \<Rightarrow> string + Review list"
  MapOrder :: "'w \<Rightarrow> string \<Rightarrow> nat"
  Log :: "string \<Rightarrow> 'w \<Rightarrow> 'w"
  Println :: "string \<Rightarrow> 'w \<Rightarrow> 'w"

definition pageLoadTimeout :: nat where
  "pageLoadTimeout = 10"

definition renderNodeToString :: "('w, 'el) env \<Rightarrow> Node \<Rightarrow> string" where
  "renderNodeToString env n = Render env n"

section \<open>The structured extractor\<close>

text \<open>
  \<^verbatim>\<open>extractReviewDataUsingLLM\<close> exists twice as well: the method of the service, and the
  function of \<^verbatim>\<open>src/main.go\<close> (\<open>extractReviewDataUsingLLM_main\<close>), which prints the reply
  and puts it into the extraction error.
\<close>

definition nl :: string where
  "nl = [CHR 0x0A]"

definition promptHead :: string where
  \<open>promptHead =
     nl @ ''You are an assistant. Extract all review details from the following HTML snippet in strict JSON format. '' @ nl
     @ ''Identify the title, body, rating, and reviewer for each review. Return only the JSON response.'' @ nl
     @ nl
     @ ''HTML:'' @ nl\<close>

definition promptTail :: string where
  \<open>promptTail =
     nl @ nl
     @ ''JSON format:'' @ nl
     @ ''['' @ nl
     @ ''  {'' @ nl
     @ ''    "title": "Review Title",'' @ nl
     @ ''    "body": "Review Body",'' @ nl
     @ ''    "rating": "Rating (e.g., 5 stars, 4/5, etc.)",'' @ nl
     @ ''    "reviewer": "Reviewer Name"'' @ nl
     @ ''  },'' @ nl
     @ ''  ...'' @ nl
     @ '']'' @ nl\<close>

definition prompt :: "string \<Rightarrow> string" where
  "prompt sectionHTML = promptHead @ sectionHTML @ promptTail"

definition extractReviewDataUsingLLM ::
  "('w, 'el) env \<Rightarrow> string \<Rightarrow> 'w \<Rightarrow> (string + Review list) \<times> 'w" where
  "extractReviewDataUsingLLM env sectionHTML w =
     (case GenerateFromSinglePrompt env (prompt sectionHTML) w of
        (Inl err, w') \<Rightarrow> (Inl (''failed to generate completion: '' @ err), w')
      | (Inr response, w') \<Rightarrow>
          (let matches = FindString jsonRegex response in
           if matches = [] then (Inl ''failed to extract JSON from response'', w')
           else (case Unmarshal env matches of
                   Inl err \<Rightarrow> (Inl (''failed to parse review JSON: '' @ err), w')
                 | Inr reviews \<Rightarrow> (Inr reviews, w'))))"

definition extractReviewDataUsingLLM_main ::
  "('w, 'el) env \<Rightarrow> string \<Rightarrow> 'w \<Rightarrow> (string + Review list) \<times> 'w" where
  "extractReviewDataUsingLLM_main env sectionHTML w =
     (case GenerateFromSinglePrompt env (prompt sectionHTML) w of
        (Inl err, w') \<Rightarrow> (Inl (''failed to generate completion: '' @ err), w')
      | (Inr response, w') \<Rightarrow>
          (let w'' = Println env (''Raw LLM Response: '' @ response) w';
               matches = FindString jsonRegex response in
           if matches = [] then (Inl (''failed to extract JSON from response: '' @ response), w'')
           else (case Unmarshal env matches of
                   Inl err \<Rightarrow> (Inl (''failed to parse review JSON: '' @ err), w'')
                 | Inr reviews \<Rightarrow> (Inr reviews, w''))))"

section \<open>The pagination loop\<close>

text \<open>
  \<^verbatim>\<open>handlePagination\<close>: \<open>loopBody\<close> is one iteration of the loop, with the way it is left
  (\<^verbatim>\<open>return err\<close>, \<^verbatim>\<open>break\<close>, or the next iteration with the value of
  \<^verbatim>\<open>prevPageSource\<close>). The loop has no bound, so it is a partial function in the option
  monad: \<open>None\<close> is a run that never returns. The callback \<^verbatim>\<open>processPage\<close> acts on the
  variables it has captured (\<open>'a\<close>) and on the world.
\<close>

datatype outcome = Return string | Break | Continue string

definition nextSelectors :: "string list" where
  \<open>nextSelectors =
     [''.pagination-next'', ''a[rel='next']'', ''button:contains('Next')'', ''.see-more-button'', ''.load-more'']\<close>

definition scrollScript :: string where
  "scrollScript = ''window.scrollTo(0, document.body.scrollHeight);''"

fun findNext :: "('w, 'el) env \<Rightarrow> string list \<Rightarrow> 'w \<Rightarrow> 'el option \<times> 'w" where
  "findNext env [] w = (None, w)"
| "findNext env (selector # selectors) w =
     (case FindElement env selector w of
        (Inr nextButton, w') \<Rightarrow> (Some nextButton, w')
      | (Inl err, w') \<Rightarrow> findNext env selectors w')"

definition loopBody ::
  "('w, 'el) env \<Rightarrow> (string \<Rightarrow> 'a \<Rightarrow> 'w \<Rightarrow> string option \<times> 'a \<times> 'w) \<Rightarrow> string \<Rightarrow> 'a \<Rightarrow> 'w
     \<Rightarrow> outcome \<times> 'a \<times> 'w" where
  "loopBody env processPage prevPageSource a w =
     (case PageSource env w of
        (Inl err, w1) \<Rightarrow> (Return (''failed to fetch page source: '' @ err), a, w1)
      | (Inr pageSource, w1) \<Rightarrow>
          (case processPage pageSource a w1 of
             (Some err, a2, w2) \<Rightarrow> (Return (''failed to process page: '' @ err), a2, w2)
           | (None, a2, w2) \<Rightarrow>
               (case findNext env nextSelectors w2 of
                  (None, w3) \<Rightarrow>
                    (case ExecuteScript env scrollScript w3 of
                       (Some err, w4) \<Rightarrow> (Return (''failed to scroll: '' @ err), a2, w4)
                     | (None, w4) \<Rightarrow>
                         (case PageSource env (Sleep env 2 w4) of
                            (Inl err, w5) \<Rightarrow> (Return (''failed to fetch new page source: '' @ err), a2, w5)
                          | (Inr newPageSource, w5) \<Rightarrow>
                              if newPageSource = prevPageSource then (Break, a2, w5)
                              else (Continue newPageSource, a2, w5)))
                | (Some nextButton, w3) \<Rightarrow>
                    (case Click env nextButton w3 of
                       (Some err, w4) \<Rightarrow> (Return (''failed to click pagination element: '' @ err), a2, w4)
                     | (None, w4) \<Rightarrow> (Continue prevPageSource, a2, Sleep env 2 w4)))))"

partial_function (option) handlePaginationLoop ::
  "('w, 'el) env \<Rightarrow> (string \<Rightarrow> 'a \<Rightarrow> 'w \<Rightarrow> string option \<times> 'a \<times> 'w) \<Rightarrow> string \<Rightarrow> 'a \<Rightarrow> 'w
     \<Rightarrow> (string option \<times> 'a \<times> 'w) option" where
  "handlePaginationLoop env processPage prevPageSource a w =
     (case loopBody env processPage prevPageSource a w of
        (Return err, a', w') \<Rightarrow> Some (Some err, a', w')
      | (Break, a', w') \<Rightarrow> Some (None, a', w')
      | (Continue prev', a', w') \<Rightarrow> handlePaginationLoop env processPage prev' a' w')"

declare handlePaginationLoop.simps [code]

definition handlePagination ::
  "('w, 'el) env \<Rightarrow> (string \<Rightarrow> 'a \<Rightarrow> 'w \<Rightarrow> string option \<times> 'a \<times> 'w) \<Rightarrow> 'a \<Rightarrow> 'w
     \<Rightarrow> (string option \<times> 'a \<times> 'w) option" where
  "handlePagination env processPage a w = handlePaginationLoop env processPage [] a w"

section \<open>Scraping one URL\<close>

text \<open>
  \<^verbatim>\<open>ScrapeReviews\<close>: the callback given to \<^verbatim>\<open>handlePagination\<close> is \<open>processPage\<close>,
  its captured variable is \<^verbatim>\<open>allReviews\<close>; \<open>processReviewIDs\<close> is the loop over the
  candidate ids.
\<close>

fun processReviewIDs ::
  "('w, 'el) env \<Rightarrow> Node \<Rightarrow> string list \<Rightarrow> Review list \<Rightarrow> 'w \<Rightarrow> Review list \<times> 'w" where
  "processReviewIDs env doc [] allReviews w = (allReviews, w)"
| "processReviewIDs env doc (ident # ids) allReviews w =
     (case extractSectionByID doc ident of
        None \<Rightarrow> processReviewIDs env doc ids allReviews
                  (Log env (''Section with id '' @ ident @ '' not found'') w)
      | Some section \<Rightarrow>
          (let sectionHTML = renderNodeToString env section in
           case extractReviewDataUsingLLM env sectionHTML w of
             (Inl err, w') \<Rightarrow> processReviewIDs env doc ids allReviews
                  (Log env (''Error extracting reviews for section '' @ ident @ '': '' @ err) w')
           | (Inr reviews, w') \<Rightarrow> processReviewIDs env doc ids (allReviews @ reviews) w'))"

definition processPage ::
  "('w, 'el) env \<Rightarrow> string \<Rightarrow> Review list \<Rightarrow> 'w \<Rightarrow> string option \<times> Review list \<times> 'w" where
  "processPage env pageSource allReviews w =
     (let reviewIDs = findReviewIDs (MapOrder env w) pageSource in
      if length reviewIDs = 0 then (None, allReviews, Log env ''No review sections found'' w)
      else (case Parse env pageSource of
              Inl err \<Rightarrow> (Some (''error parsing HTML: '' @ err), allReviews, w)
            | Inr doc \<Rightarrow>
                (case processReviewIDs env doc reviewIDs allReviews w of
                   (allReviews', w') \<Rightarrow> (None, allReviews', w'))))"

definition ScrapeReviews ::
  "('w, 'el) env \<Rightarrow> string \<Rightarrow> 'w \<Rightarrow> ((string + Review list) \<times> 'w) option" where
  "ScrapeReviews env url w =
     (case Get env url w of
        (Some err, w1) \<Rightarrow> Some (Inl (''failed to load page: '' @ err), w1)
      | (None, w1) \<Rightarrow>
          (case SetImplicitWaitTimeout env pageLoadTimeout w1 of
             (Some err, w2) \<Rightarrow> Some (Inl (''failed to set implicit wait: '' @ err), w2)
           | (None, w2) \<Rightarrow>
               (case handlePagination env (processPage env) [] w2 of
                  None \<Rightarrow> None
                | Some (Some err, allReviews, w3) \<Rightarrow> Some (Inl (''error during pagination: '' @ err), w3)
                | Some (None, allReviews, w3) \<Rightarrow> Some (Inr allReviews, w3))))"


section \<open>Decoding the array of reviews\<close>

text \<open>
  \<^verbatim>\<open>json.Unmarshal\<close> belongs to Go's library and is a parameter of the model (the field
  \<^const>\<open>Unmarshal\<close>). The decoder below is a model of it for the target \<^verbatim>\<open>[]Review\<close> on a
  fragment of JSON: an array whose elements are objects, or \<^verbatim>\<open>null\<close>, and whose member values
  are strings, or \<^verbatim>\<open>null\<close>. As in the library, whitespace is allowed between the tokens, a
  key is matched to the four fields without regard to the case of its ASCII letters (the
  library also takes some letters beyond ASCII for ASCII ones), a key that names no field is
  ignored, the last of several members for one field wins, a field without a member stays
  empty, \<^verbatim>\<open>null\<close> leaves a field as it is and gives an empty review as an element. A string
  may hold the escapes of one character and \<^verbatim>\<open>\u\<close> escapes; a surrogate pair gives one
  character, a surrogate without its partner gives U+FFFD; a control character in a string is an
  error. Outside the fragment the decoder reports an error: for a number, a boolean, an array
  or an object as the value of one of the four fields, and for an element that is neither an
  object nor \<^verbatim>\<open>null\<close>, so does the library (a type error); as the value of a key that names
  no field the library skips them, which the decoder does not follow. The decoder copies the
  bytes of a string as they are, where the library replaces a byte sequence that is not UTF-8 by
  U+FFFD. The text of the error is not modelled.
\<close>

datatype strMode = SPlain | SEsc | SHex nat int | SHigh int | SHighEsc int | SHighHex int nat int

datatype strResult = More string strMode | Closed string | Fail

datatype strCtx = KeyCtx | ValCtx string

datatype nullCtx = TopNull | ElemNull | MemberNull

datatype jstate =
    JStart | JArrOpen | JObjOpen
  | JStr strCtx string strMode | JAfterKey string | JBeforeVal string
  | JNull nullCtx string
  | JAfterVal | JNextKey | JAfterObj | JNextObj | JDone | JBad

definition emptyReview :: Review where
  "emptyReview = \<lparr> Title = [], Body = [], Rating = [], Reviewer = [] \<rparr>"

definition setField :: "string \<Rightarrow> string \<Rightarrow> Review \<Rightarrow> Review" where
  "setField k v r =
     (let f = map lowerASCII k in
      if f = ''title'' then r\<lparr>Title := v\<rparr>
      else if f = ''body'' then r\<lparr>Body := v\<rparr>
      else if f = ''rating'' then r\<lparr>Rating := v\<rparr>
      else if f = ''reviewer'' then r\<lparr>Reviewer := v\<rparr>
      else r)"

definition unescape :: "char \<Rightarrow> char option" where
  "unescape c =
     map_of [(CHR 0x22, CHR 0x22), (CHR 0x5C, CHR 0x5C), (CHR ''/'', CHR ''/''), (CHR ''b'', CHR 0x08),
             (CHR ''f'', CHR 0x0C), (CHR ''n'', CHR 0x0A), (CHR ''r'', CHR 0x0D), (CHR ''t'', CHR 0x09)] c"

definition jsonSpace :: "char \<Rightarrow> bool" where
  "jsonSpace c = (c \<in> set [CHR 0x20, CHR 0x09, CHR 0x0D, CHR 0x0A])"

definition controlChar :: "char \<Rightarrow> bool" where
  "controlChar c = ((of_char c :: nat) < 32)"

definition hexVal :: "char \<Rightarrow> int option" where
  "hexVal c = map_of (zip ''0123456789abcdefABCDEF'' [0, 1, 2, 3, 4, 5, 6, 7, 8, 9, 10, 11, 12, 13, 14, 15, 10, 11, 12, 13, 14, 15]) c"

definition isHigh :: "int \<Rightarrow> bool" where
  "isHigh n = (0xD800 \<le> n \<and> n < 0xDC00)"

definition isLow :: "int \<Rightarrow> bool" where
  "isLow n = (0xDC00 \<le> n \<and> n < 0xE000)"

definition combine :: "int \<Rightarrow> int \<Rightarrow> int" where
  "combine h l = 0x10000 + (h - 0xD800) * 0x400 + (l - 0xDC00)"

definition utf8Encode :: "int \<Rightarrow> string" where
  "utf8Encode n =
     (if n < 0x80 then [char_of n]
      else if n < 0x800 then [char_of (0xC0 + n div 0x40), char_of (0x80 + n mod 0x40)]
      else if n < 0x10000 then
        [char_of (0xE0 + n div 0x1000), char_of (0x80 + n div 0x40 mod 0x40), char_of (0x80 + n mod 0x40)]
      else
        [char_of (0xF0 + n div 0x40000), char_of (0x80 + n div 0x1000 mod 0x40),
         char_of (0x80 + n div 0x40 mod 0x40), char_of (0x80 + n mod 0x40)])"

definition replacementChar :: string where
  "replacementChar = [CHR 0xEF, CHR 0xBF, CHR 0xBD]"

definition plainStep :: "string \<Rightarrow> char \<Rightarrow> strResult" where
  "plainStep acc c =
     (if c = CHR 0x22 then Closed acc
      else if c = CHR 0x5C then More acc SEsc
      else if controlChar c then Fail
      else More (acc @ [c]) SPlain)"

definition escStep :: "string \<Rightarrow> char \<Rightarrow> strResult" where
  "escStep acc c =
     (if c = CHR ''u'' then More acc (SHex 0 0)
      else (case unescape c of Some d \<Rightarrow> More (acc @ [d]) SPlain | None \<Rightarrow> Fail))"

definition unitStep :: "string \<Rightarrow> int \<Rightarrow> strResult" where
  "unitStep acc n =
     (if isHigh n then More acc (SHigh n)
      else if isLow n then More (acc @ replacementChar) SPlain
      else More (acc @ utf8Encode n) SPlain)"

fun strStep :: "string \<Rightarrow> strMode \<Rightarrow> char \<Rightarrow> strResult" where
  "strStep acc SPlain c = plainStep acc c"
| "strStep acc SEsc c = escStep acc c"
| "strStep acc (SHex k v) c =
     (case hexVal c of
        None \<Rightarrow> Fail
      | Some d \<Rightarrow> if k < 3 then More acc (SHex (Suc k) (v * 16 + d)) else unitStep acc (v * 16 + d))"
| "strStep acc (SHigh h) c =
     (if c = CHR 0x5C then More acc (SHighEsc h) else plainStep (acc @ replacementChar) c)"
| "strStep acc (SHighEsc h) c =
     (if c = CHR ''u'' then More acc (SHighHex h 0 0) else escStep (acc @ replacementChar) c)"
| "strStep acc (SHighHex h k v) c =
     (case hexVal c of
        None \<Rightarrow> Fail
      | Some d \<Rightarrow>
          if k < 3 then More acc (SHighHex h (Suc k) (v * 16 + d))
          else if isLow (v * 16 + d) then More (acc @ utf8Encode (combine h (v * 16 + d))) SPlain
          else unitStep (acc @ replacementChar) (v * 16 + d))"

fun jstep :: "jstate \<times> Review \<times> Review list \<Rightarrow> char \<Rightarrow> jstate \<times> Review \<times> Review list" where
  "jstep (JStart, r, rs) c =
     (if jsonSpace c then (JStart, r, rs) else if c = CHR ''['' then (JArrOpen, r, rs)
      else if c = CHR ''n'' then (JNull TopNull ''ull'', r, rs) else (JBad, r, rs))"
| "jstep (JArrOpen, r, rs) c =
     (if jsonSpace c then (JArrOpen, r, rs) else if c = CHR ''{'' then (JObjOpen, emptyReview, rs)
      else if c = CHR ''n'' then (JNull ElemNull ''ull'', r, rs)
      else if c = CHR '']'' then (JDone, r, rs) else (JBad, r, rs))"
| "jstep (JObjOpen, r, rs) c =
     (if jsonSpace c then (JObjOpen, r, rs) else if c = CHR 0x22 then (JStr KeyCtx [] SPlain, r, rs)
      else if c = CHR ''}'' then (JAfterObj, r, rs @ [r]) else (JBad, r, rs))"
| "jstep (JStr ctx acc mode, r, rs) c =
     (case strStep acc mode c of
        More acc' mode' \<Rightarrow> (JStr ctx acc' mode', r, rs)
      | Closed v \<Rightarrow> (case ctx of KeyCtx \<Rightarrow> (JAfterKey v, r, rs) | ValCtx k \<Rightarrow> (JAfterVal, setField k v r, rs))
      | Fail \<Rightarrow> (JBad, r, rs))"
| "jstep (JAfterKey k, r, rs) c =
     (if jsonSpace c then (JAfterKey k, r, rs) else if c = CHR '':'' then (JBeforeVal k, r, rs)
      else (JBad, r, rs))"
| "jstep (JBeforeVal k, r, rs) c =
     (if jsonSpace c then (JBeforeVal k, r, rs) else if c = CHR 0x22 then (JStr (ValCtx k) [] SPlain, r, rs)
      else if c = CHR ''n'' then (JNull MemberNull ''ull'', r, rs) else (JBad, r, rs))"
| "jstep (JNull ctx [], r, rs) c = (JBad, r, rs)"
| "jstep (JNull ctx (x # xs), r, rs) c =
     (if c \<noteq> x then (JBad, r, rs)
      else if xs \<noteq> [] then (JNull ctx xs, r, rs)
      else (case ctx of
              TopNull \<Rightarrow> (JDone, r, rs)
            | ElemNull \<Rightarrow> (JAfterObj, r, rs @ [emptyReview])
            | MemberNull \<Rightarrow> (JAfterVal, r, rs)))"
| "jstep (JAfterVal, r, rs) c =
     (if jsonSpace c then (JAfterVal, r, rs) else if c = CHR '','' then (JNextKey, r, rs)
      else if c = CHR ''}'' then (JAfterObj, r, rs @ [r]) else (JBad, r, rs))"
| "jstep (JNextKey, r, rs) c =
     (if jsonSpace c then (JNextKey, r, rs) else if c = CHR 0x22 then (JStr KeyCtx [] SPlain, r, rs)
      else (JBad, r, rs))"
| "jstep (JAfterObj, r, rs) c =
     (if jsonSpace c then (JAfterObj, r, rs) else if c = CHR '','' then (JNextObj, r, rs)
      else if c = CHR '']'' then (JDone, r, rs) else (JBad, r, rs))"
| "jstep (JNextObj, r, rs) c =
     (if jsonSpace c then (JNextObj, r, rs) else if c = CHR ''{'' then (JObjOpen, emptyReview, rs)
      else if c = CHR ''n'' then (JNull ElemNull ''ull'', r, rs) else (JBad, r, rs))"
| "jstep (JDone, r, rs) c = (if jsonSpace c then (JDone, r, rs) else (JBad, r, rs))"
| "jstep (JBad, r, rs) c = (JBad, r, rs)"

definition unmarshalReviews :: "string \<Rightarrow> string + Review list" where
  "unmarshalReviews s =
     (case foldl jstep (JStart, emptyReview, []) s of
        (JDone, r, rs) \<Rightarrow> Inr rs
      | _ \<Rightarrow> Inl ''invalid or unsupported JSON'')"

text \<open>
  The texts of the fragment, described by their structure. A string is written as a sequence of
  pieces: bytes written as they are (UTF-8, without the quote, the backslash and the control
  characters), an escape of one character, a \<^verbatim>\<open>\u\<close> escape of a character that is not a
  surrogate, or a surrogate pair. A member is a key, written in ASCII, and a value, a string or
  \<^verbatim>\<open>null\<close>, with the whitespace around them; an object is a sequence of members, an array a
  sequence of objects. \<open>writeArray\<close> gives the text, \<open>arrayReviews\<close> the reviews it denotes:
  each field of a review is the string of the last member with a string as its value whose key
  is the name of the field, in any case, or empty without one.
\<close>

datatype piece = Raw string | Simple char | Unicode string | Surrogates string string

fun writePiece :: "piece \<Rightarrow> string" where
  "writePiece (Raw bs) = bs"
| "writePiece (Simple e) = [CHR 0x5C, e]"
| "writePiece (Unicode hs) = CHR 0x5C # CHR ''u'' # hs"
| "writePiece (Surrogates hs ls) = CHR 0x5C # CHR ''u'' # hs @ CHR 0x5C # CHR ''u'' # ls"

definition hexCode :: "string \<Rightarrow> int" where
  "hexCode hs = foldl (\<lambda>v c. v * 16 + (case hexVal c of Some d \<Rightarrow> d | None \<Rightarrow> 0)) 0 hs"

fun pieceValue :: "piece \<Rightarrow> string" where
  "pieceValue (Raw bs) = bs"
| "pieceValue (Simple e) = (case unescape e of Some d \<Rightarrow> [d] | None \<Rightarrow> [])"
| "pieceValue (Unicode hs) = utf8Encode (hexCode hs)"
| "pieceValue (Surrogates hs ls) = utf8Encode (combine (hexCode hs) (hexCode ls))"

definition plainByte :: "char \<Rightarrow> bool" where
  "plainByte c = (c \<noteq> CHR 0x22 \<and> c \<noteq> CHR 0x5C \<and> \<not> controlChar c)"

definition hex4 :: "string \<Rightarrow> bool" where
  "hex4 hs = (length hs = 4 \<and> list_all (\<lambda>c. hexVal c \<noteq> None) hs)"

definition continuation :: "int \<Rightarrow> bool" where
  "continuation b = (0x80 \<le> b \<and> b \<le> 0xBF)"

fun validUTF8 :: "int list \<Rightarrow> bool" where
  "validUTF8 [] = True"
| "validUTF8 (a # bs) =
     (if a < 0x80 then validUTF8 bs
      else if 0xC2 \<le> a \<and> a \<le> 0xDF then
        (case bs of b # bs' \<Rightarrow> continuation b \<and> validUTF8 bs' | _ \<Rightarrow> False)
      else if 0xE0 \<le> a \<and> a \<le> 0xEF then
        (case bs of
           b # c # bs' \<Rightarrow>
             (if a = 0xE0 then 0xA0 \<le> b \<and> b \<le> 0xBF else if a = 0xED then 0x80 \<le> b \<and> b \<le> 0x9F else continuation b)
             \<and> continuation c \<and> validUTF8 bs'
         | _ \<Rightarrow> False)
      else if 0xF0 \<le> a \<and> a \<le> 0xF4 then
        (case bs of
           b # c # d # bs' \<Rightarrow>
             (if a = 0xF0 then 0x90 \<le> b \<and> b \<le> 0xBF else if a = 0xF4 then 0x80 \<le> b \<and> b \<le> 0x8F else continuation b)
             \<and> continuation c \<and> continuation d \<and> validUTF8 bs'
         | _ \<Rightarrow> False)
      else False)"

fun validPiece :: "piece \<Rightarrow> bool" where
  "validPiece (Raw bs) = (list_all plainByte bs \<and> validUTF8 (map of_char bs))"
| "validPiece (Simple e) = (unescape e \<noteq> None)"
| "validPiece (Unicode hs) = (hex4 hs \<and> \<not> isHigh (hexCode hs) \<and> \<not> isLow (hexCode hs))"
| "validPiece (Surrogates hs ls) = (hex4 hs \<and> hex4 ls \<and> isHigh (hexCode hs) \<and> isLow (hexCode ls))"

definition writeLit :: "piece list \<Rightarrow> string" where
  "writeLit ps = CHR 0x22 # concat (map writePiece ps) @ [CHR 0x22]"

definition litValue :: "piece list \<Rightarrow> string" where
  "litValue ps = concat (map pieceValue ps)"

datatype valueText = StringValue "piece list" | NullValue

fun writeValue :: "valueText \<Rightarrow> string" where
  "writeValue (StringValue ps) = writeLit ps"
| "writeValue NullValue = ''null''"

fun validValue :: "valueText \<Rightarrow> bool" where
  "validValue (StringValue ps) = list_all validPiece ps"
| "validValue NullValue = True"

fun valueOf :: "valueText \<Rightarrow> string option" where
  "valueOf (StringValue ps) = Some (litValue ps)"
| "valueOf NullValue = None"

datatype memberText = Member string "piece list" string string valueText string

fun writeMember :: "memberText \<Rightarrow> string" where
  "writeMember (Member w1 k w2 w3 v w4) = w1 @ writeLit k @ w2 @ CHR '':'' # w3 @ writeValue v @ w4"

fun memberKey :: "memberText \<Rightarrow> string" where
  "memberKey (Member w1 k w2 w3 v w4) = litValue k"

fun memberValue :: "memberText \<Rightarrow> string option" where
  "memberValue (Member w1 k w2 w3 v w4) = valueOf v"

definition asciiText :: "string \<Rightarrow> bool" where
  "asciiText s = list_all (\<lambda>c. (of_char c :: int) < 0x80) s"

fun validMember :: "memberText \<Rightarrow> bool" where
  "validMember (Member w1 k w2 w3 v w4) =
     (list_all jsonSpace w1 \<and> list_all validPiece k \<and> asciiText (litValue k) \<and> list_all jsonSpace w2
      \<and> list_all jsonSpace w3 \<and> validValue v \<and> list_all jsonSpace w4)"

fun commaSep :: "string list \<Rightarrow> string" where
  "commaSep [] = []"
| "commaSep [x] = x"
| "commaSep (x # y # ys) = x @ CHR '','' # commaSep (y # ys)"

datatype objectText = NoMembers string | Members "memberText list"

fun writeObject :: "objectText \<Rightarrow> string" where
  "writeObject (NoMembers w) = CHR ''{'' # w @ ''}''"
| "writeObject (Members ms) = CHR ''{'' # commaSep (map writeMember ms) @ ''}''"

fun validObject :: "objectText \<Rightarrow> bool" where
  "validObject (NoMembers w) = list_all jsonSpace w"
| "validObject (Members ms) = (ms \<noteq> [] \<and> list_all validMember ms)"

fun membersOf :: "objectText \<Rightarrow> memberText list" where
  "membersOf (NoMembers w) = []"
| "membersOf (Members ms) = ms"

definition fieldOf :: "string \<Rightarrow> memberText list \<Rightarrow> string" where
  "fieldOf name ms =
     (let named = filter (\<lambda>m. map lowerASCII (memberKey m) = name \<and> memberValue m \<noteq> None) ms
      in if named = [] then [] else (case memberValue (last named) of Some v \<Rightarrow> v | None \<Rightarrow> []))"

definition objectReview :: "objectText \<Rightarrow> Review" where
  "objectReview obj =
     \<lparr> Title = fieldOf ''title'' (membersOf obj), Body = fieldOf ''body'' (membersOf obj),
       Rating = fieldOf ''rating'' (membersOf obj), Reviewer = fieldOf ''reviewer'' (membersOf obj) \<rparr>"

datatype elementText = Element string objectText string

fun writeElement :: "elementText \<Rightarrow> string" where
  "writeElement (Element w1 obj w2) = w1 @ writeObject obj @ w2"

fun validElement :: "elementText \<Rightarrow> bool" where
  "validElement (Element w1 obj w2) = (list_all jsonSpace w1 \<and> validObject obj \<and> list_all jsonSpace w2)"

fun elementReview :: "elementText \<Rightarrow> Review" where
  "elementReview (Element w1 obj w2) = objectReview obj"

datatype arrayText = NoElements string | Elements "elementText list"

fun arrayBody :: "arrayText \<Rightarrow> string" where
  "arrayBody (NoElements w) = w"
| "arrayBody (Elements es) = commaSep (map writeElement es)"

definition writeArray :: "arrayText \<Rightarrow> string" where
  "writeArray t = ''['' @ arrayBody t @ '']''"

fun validArray :: "arrayText \<Rightarrow> bool" where
  "validArray (NoElements w) = list_all jsonSpace w"
| "validArray (Elements es) = (es \<noteq> [] \<and> list_all validElement es)"

fun arrayReviews :: "arrayText \<Rightarrow> Review list" where
  "arrayReviews (NoElements w) = []"
| "arrayReviews (Elements es) = map elementReview es"


section \<open>A simulated environment for concrete runs\<close>

text \<open>
  The simulated browser holds the successive states of the rendered document, the current one
  first. Scrolling and clicking move to the next state when there is one; a control is found
  when the selector is the first of the list and the current document offers it. The completion
  service answers from the section embedded in the prompt. Rendering writes an element with its
  attributes and its children, and a text as it is; this is what \<^verbatim>\<open>html.Render\<close> gives for
  the elements of the runs below, whose texts and attribute values need no escaping and which
  are neither void nor comments.
\<close>

record sim =
  pages :: "string list"
  logged :: "string list"
  printed :: "string list"

definition advance :: "sim \<Rightarrow> sim" where
  "advance w = (case pages w of p # q # ps \<Rightarrow> w\<lparr>pages := q # ps\<rparr> | _ \<Rightarrow> w)"

definition sectionOf :: "string \<Rightarrow> string" where
  "sectionOf p = take (length p - length promptHead - length promptTail) (drop (length promptHead) p)"

fun renderSim :: "Node \<Rightarrow> string" where
  \<open>renderSim (Node ty d attrs cs) =
     (if ty = TextNode then d
      else if ty = ElementNode then
        ''<'' @ d @ concat (map (\<lambda>a. '' '' @ Key a @ ''="'' @ Val a @ ''"'') attrs) @ ''>''
        @ concat (map renderSim cs) @ ''</'' @ d @ ''>''
      else concat (map renderSim cs))\<close>

definition simEnv ::
  "(string \<Rightarrow> nat) \<Rightarrow> (string \<Rightarrow> string + string) \<Rightarrow> (string \<Rightarrow> string + Node) \<Rightarrow> (string \<Rightarrow> bool)
     \<Rightarrow> (sim, unit) env" where
  "simEnv rank llm parse nextOn =
     \<lparr> Get = (\<lambda>url w. (None, w)),
       SetImplicitWaitTimeout = (\<lambda>d w. (None, w)),
       PageSource = (\<lambda>w. case pages w of [] \<Rightarrow> (Inl ''no such window'', w) | p # ps \<Rightarrow> (Inr p, w)),
       FindElement = (\<lambda>selector w.
          case pages w of
            [] \<Rightarrow> (Inl ''no such window'', w)
          | p # ps \<Rightarrow> if selector = ''.pagination-next'' \<and> nextOn p then (Inr (), w)
                      else (Inl ''no such element'', w)),
       ExecuteScript = (\<lambda>script w. (None, advance w)),
       Click = (\<lambda>el w. (None, advance w)),
       Sleep = (\<lambda>d w. w),
       GenerateFromSinglePrompt = (\<lambda>p w. (llm (sectionOf p), w)),
       Parse = parse,
       Render = renderSim,
       Unmarshal = unmarshalReviews,
       MapOrder = (\<lambda>w. rank),
       Log = (\<lambda>m w. w\<lparr>logged := logged w @ [m]\<rparr>),
       Println = (\<lambda>m w. w\<lparr>printed := printed w @ [m]\<rparr>) \<rparr>"

definition browser :: "string list \<Rightarrow> sim" where
  "browser ps = \<lparr> pages = ps, logged = [], printed = [] \<rparr>"

section \<open>Notions used in the statements\<close>

text \<open>
  The nodes of a tree in document order, the elements that carry a given id, and those of them
  that do not lie inside another such element.
\<close>

fun nodes :: "Node \<Rightarrow> Node list" where
  "nodes (Node ty d attrs cs) = Node ty d attrs cs # concat (map nodes cs)"

definition hasID :: "string \<Rightarrow> Node \<Rightarrow> bool" where
  "hasID ident n = (Type n = ElementNode \<and> attrMatches ident (Attr n))"

fun outerMatches :: "string \<Rightarrow> Node \<Rightarrow> Node list" where
  "outerMatches ident (Node ty d attrs cs) =
     (if ty = ElementNode \<and> attrMatches ident attrs then [Node ty d attrs cs]
      else concat (map (outerMatches ident) cs))"

definition element :: "string \<Rightarrow> string \<Rightarrow> Node list \<Rightarrow> Node" where
  "element tag ident cs = Node ElementNode tag [\<lparr>Namespace = [], Key = ''id'', Val = ident\<rparr>] cs"

definition textNode :: "string \<Rightarrow> Node" where
  "textNode s = Node TextNode s [] []"

definition document :: "Node list \<Rightarrow> Node" where
  "document body =
     Node DocumentNode [] []
       [Node ElementNode ''html'' [] [Node ElementNode ''head'' [] [], Node ElementNode ''body'' [] body]]"

text \<open>
  \<open>cycleState n\<close> is the state of the loop after \<open>n\<close> iterations that all went on to the
  next one. \<open>scrollFetch\<close> describes an iteration that advances by scroll and fetches the
  markup again without a fatal error, \<open>clickAdvance\<close> one that finds a control and clicks it;
  neither looks at the comparison baseline. A run is described by its moves: \<open>moves\<close> says
  that the next iterations advance as listed, a scroll fetching the given markup, and gives the
  state they lead to; \<open>scrolled\<close> lists the markups fetched after the scrolls of a run, and
  \<open>baseline\<close> is the last of them, or the empty text when the run has not scrolled yet.
\<close>

fun cycleState ::
  "nat \<Rightarrow> ('w, 'el) env \<Rightarrow> (string \<Rightarrow> 'a \<Rightarrow> 'w \<Rightarrow> string option \<times> 'a \<times> 'w) \<Rightarrow> string \<Rightarrow> 'a \<Rightarrow> 'w
     \<Rightarrow> (string \<times> 'a \<times> 'w) option" where
  "cycleState 0 env pp prev a w = Some (prev, a, w)"
| "cycleState (Suc n) env pp prev a w =
     (case loopBody env pp prev a w of
        (Continue prev', a', w') \<Rightarrow> cycleState n env pp prev' a' w'
      | (Return err, a', w') \<Rightarrow> None
      | (Break, a', w') \<Rightarrow> None)"

definition scrollFetch ::
  "('w, 'el) env \<Rightarrow> (string \<Rightarrow> 'a \<Rightarrow> 'w \<Rightarrow> string option \<times> 'a \<times> 'w) \<Rightarrow> 'a \<Rightarrow> 'w
     \<Rightarrow> (string \<times> 'a \<times> 'w) option" where
  "scrollFetch env pp a w =
     (case PageSource env w of
        (Inl err, w1) \<Rightarrow> None
      | (Inr pageSource, w1) \<Rightarrow>
          (case pp pageSource a w1 of
             (Some err, a2, w2) \<Rightarrow> None
           | (None, a2, w2) \<Rightarrow>
               (case findNext env nextSelectors w2 of
                  (Some nextButton, w3) \<Rightarrow> None
                | (None, w3) \<Rightarrow>
                    (case ExecuteScript env scrollScript w3 of
                       (Some err, w4) \<Rightarrow> None
                     | (None, w4) \<Rightarrow>
                         (case PageSource env (Sleep env 2 w4) of
                            (Inl err, w5) \<Rightarrow> None
                          | (Inr newPageSource, w5) \<Rightarrow> Some (newPageSource, a2, w5))))))"

definition clickAdvance ::
  "('w, 'el) env \<Rightarrow> (string \<Rightarrow> 'a \<Rightarrow> 'w \<Rightarrow> string option \<times> 'a \<times> 'w) \<Rightarrow> 'a \<Rightarrow> 'w \<Rightarrow> ('a \<times> 'w) option" where
  "clickAdvance env pp a w =
     (case PageSource env w of
        (Inl err, w1) \<Rightarrow> None
      | (Inr pageSource, w1) \<Rightarrow>
          (case pp pageSource a w1 of
             (Some err, a2, w2) \<Rightarrow> None
           | (None, a2, w2) \<Rightarrow>
               (case findNext env nextSelectors w2 of
                  (None, w3) \<Rightarrow> None
                | (Some nextButton, w3) \<Rightarrow>
                    (case Click env nextButton w3 of
                       (Some err, w4) \<Rightarrow> None
                     | (None, w4) \<Rightarrow> Some (a2, Sleep env 2 w4)))))"

datatype move = Clicked | Scrolled string

fun moves ::
  "('w, 'el) env \<Rightarrow> (string \<Rightarrow> 'a \<Rightarrow> 'w \<Rightarrow> string option \<times> 'a \<times> 'w) \<Rightarrow> 'a \<Rightarrow> 'w \<Rightarrow> move list
     \<Rightarrow> ('a \<times> 'w) option" where
  "moves env pp a w [] = Some (a, w)"
| "moves env pp a w (Clicked # ms) =
     (case clickAdvance env pp a w of
        None \<Rightarrow> None
      | Some (a', w') \<Rightarrow> moves env pp a' w' ms)"
| "moves env pp a w (Scrolled s # ms) =
     (case scrollFetch env pp a w of
        None \<Rightarrow> None
      | Some (new, a', w') \<Rightarrow> if new = s then moves env pp a' w' ms else None)"

fun scrolled :: "move list \<Rightarrow> string list" where
  "scrolled [] = []"
| "scrolled (Clicked # ms) = scrolled ms"
| "scrolled (Scrolled s # ms) = s # scrolled ms"

definition baseline :: "move list \<Rightarrow> string" where
  "baseline ms = last ([] # scrolled ms)"

definition stopsWith ::
  "('w, 'el) env \<Rightarrow> (string \<Rightarrow> 'a \<Rightarrow> 'w \<Rightarrow> string option \<times> 'a \<times> 'w) \<Rightarrow> string \<Rightarrow> 'a \<Rightarrow> 'w
     \<Rightarrow> string option \<times> 'a \<times> 'w \<Rightarrow> bool" where
  "stopsWith env pp prev a w r =
     (case loopBody env pp prev a w of
        (Return err, a', w') \<Rightarrow> r = (Some err, a', w')
      | (Break, a', w') \<Rightarrow> r = (None, a', w')
      | (Continue prev', a', w') \<Rightarrow> False)"

definition scrollEnv :: "(sim, unit) env" where
  "scrollEnv = simEnv (\<lambda>k. 0) (\<lambda>s. Inl ''service unavailable'') (\<lambda>s. Inl ''not parsed'') (\<lambda>p. False)"

definition clickEnv :: "(sim, unit) env" where
  "clickEnv = simEnv (\<lambda>k. 0) (\<lambda>s. Inl ''service unavailable'') (\<lambda>s. Inl ''not parsed'') (\<lambda>p. True)"

definition mixedEnv :: "(sim, unit) env" where
  "mixedEnv = simEnv (\<lambda>k. 0) (\<lambda>s. Inl ''service unavailable'') (\<lambda>s. Inl ''not parsed'')
     (\<lambda>p. p = ''<p>1</p><p>2</p><a class=pagination-next>next</a>'')"

definition skipPage :: "string \<Rightarrow> Review list \<Rightarrow> sim \<Rightarrow> string option \<times> Review list \<times> sim" where
  "skipPage pageSource a w = (None, a, w)"

text \<open>
  What a scrape collects, stated by its structure: the reviews of each candidate of a page in the
  order of the list of candidates, of each page, and of each cycle of the run.
\<close>

fun sectionResults :: "('w, 'el) env \<Rightarrow> Node \<Rightarrow> string list \<Rightarrow> 'w \<Rightarrow> Review list list" where
  "sectionResults env doc [] w = []"
| "sectionResults env doc (ident # ids) w =
     (case extractSectionByID doc ident of
        None \<Rightarrow> [] # sectionResults env doc ids (Log env (''Section with id '' @ ident @ '' not found'') w)
      | Some section \<Rightarrow>
          (case extractReviewDataUsingLLM env (renderNodeToString env section) w of
             (Inl err, w') \<Rightarrow> [] # sectionResults env doc ids
                  (Log env (''Error extracting reviews for section '' @ ident @ '': '' @ err) w')
           | (Inr reviews, w') \<Rightarrow> reviews # sectionResults env doc ids w'))"

definition pageResults :: "('w, 'el) env \<Rightarrow> string \<Rightarrow> 'w \<Rightarrow> Review list list" where
  "pageResults env pageSource w =
     (case Parse env pageSource of
        Inl err \<Rightarrow> []
      | Inr doc \<Rightarrow> sectionResults env doc (findReviewIDs (MapOrder env w) pageSource) w)"

fun runResults :: "nat \<Rightarrow> ('w, 'el) env \<Rightarrow> string \<Rightarrow> 'w \<Rightarrow> Review list list list" where
  "runResults 0 env prev w = []"
| "runResults (Suc n) env prev w =
     (case PageSource env w of
        (Inl err, w1) \<Rightarrow> []
      | (Inr pageSource, w1) \<Rightarrow>
          pageResults env pageSource w1
          # (case loopBody env (processPage env) prev [] w of
               (Continue prev', a', w') \<Rightarrow> runResults n env prev' w'
             | (Return err, a', w') \<Rightarrow> []
             | (Break, a', w') \<Rightarrow> []))"

definition replyEnv :: "string \<Rightarrow> (sim, unit) env" where
  "replyEnv reply = simEnv (\<lambda>k. 0) (\<lambda>s. Inr reply) (\<lambda>s. Inl ''not parsed'') (\<lambda>p. False)"

definition pageAB :: string where
  \<open>pageAB = ''<div id="review-a">A</div><div id="review-b">B</div>''\<close>

definition docAB :: Node where
  "docAB = document [element ''div'' ''review-a'' [textNode ''A''], element ''div'' ''review-b'' [textNode ''B'']]"

definition serviceAB :: "string \<Rightarrow> string + string" where
  \<open>serviceAB s =
     (if s = ''<div id="review-a">A</div>''
      then Inr ''[{"title":"first","body":"A","rating":"5","reviewer":"ann"}]''
      else Inr ''Here you are: [{"title":"second","body":"B","rating":"4","reviewer":"bob"}]'')\<close>

definition parseAB :: "string \<Rightarrow> string + Node" where
  "parseAB s = (if s = pageAB then Inr docAB else Inr (document []))"

definition envAB :: "(string \<Rightarrow> nat) \<Rightarrow> (sim, unit) env" where
  "envAB rank = simEnv rank serviceAB parseAB (\<lambda>p. False)"

definition insertionOrder :: "string \<Rightarrow> nat" where
  "insertionOrder k = 0"

definition reviewA_last :: "string \<Rightarrow> nat" where
  "reviewA_last k = (if k = ''review-a'' then 1 else 0)"

definition cycleReviews :: "('w, 'el) env \<Rightarrow> 'w \<Rightarrow> Review list" where
  "cycleReviews env w =
     (case PageSource env w of
        (Inl err, w1) \<Rightarrow> []
      | (Inr pageSource, w1) \<Rightarrow> concat (pageResults env pageSource w1))"

definition reviewOfA :: Review where
  "reviewOfA = \<lparr> Title = ''first'', Body = ''A'', Rating = ''5'', Reviewer = ''ann'' \<rparr>"

definition reviewOfB :: Review where
  "reviewOfB = \<lparr> Title = ''second'', Body = ''B'', Rating = ''4'', Reviewer = ''bob'' \<rparr>"

definition dataIdDoc :: Node where
  "dataIdDoc =
     document [Node ElementNode ''div'' [\<lparr>Namespace = [], Key = ''data-id'', Val = ''reviews-x''\<rparr>] []]"

definition dataIdEnv :: "(sim, unit) env" where
  "dataIdEnv = simEnv insertionOrder (\<lambda>s. Inl ''service unavailable'') (\<lambda>s. Inr dataIdDoc) (\<lambda>p. False)"

text \<open>
  The class of an item, and the positions at which the scan of \<^const>\<open>scan\<close> begins an
  attempt: \<open>scanArrives p k s n\<close> holds when the scan of \<open>s\<close>, with \<open>k\<close> characters still to
  pass, attempts a match \<open>n\<close> characters further on.
\<close>

fun clsOf :: "item \<Rightarrow> cls" where
  "clsOf (One k) = k"
| "clsOf (Many k) = k"
| "clsOf (Maybe k) = k"

fun scanArrives :: "pattern \<Rightarrow> nat \<Rightarrow> string \<Rightarrow> nat \<Rightarrow> bool" where
  "scanArrives p k s 0 = (k = 0)"
| "scanArrives p k [] (Suc n) = False"
| "scanArrives p k (c # cs) (Suc n) =
     (if 0 < k then scanArrives p (k - 1) cs n
      else (case matchAt p (c # cs) of
              None \<Rightarrow> scanArrives p 0 cs n
            | Some (m, rest) \<Rightarrow> scanArrives p (length (hd m) - 1) cs n))"


section \<open>Subtree isolation\<close>

lemma traverse_fold:
  "traverse ident n sec = fold (\<lambda>m s. Some m) (outerMatches ident n) sec"
  "traverseSiblings ident cs sec = fold (\<lambda>m s. Some m) (concat (map (outerMatches ident) cs)) sec"
  by (induction ident n sec and ident cs sec rule: traverse_traverseSiblings.induct) simp_all

lemma fold_Some_last:
  "fold (\<lambda>m s. Some m) ms sec = (if ms = [] then sec else Some (last ms))"
  by (induction ms arbitrary: sec) simp_all

lemma extractSectionByID_outer:
  "extractSectionByID doc ident =
     (if outerMatches ident doc = [] then None else Some (last (outerMatches ident doc)))"
  by (simp add: extractSectionByID_def traverse_fold fold_Some_last)

lemma outerMatches_empty:
  "outerMatches ident n = [] \<longleftrightarrow> \<not> list_ex (hasID ident) (nodes n)"
proof (induction n)
  case (Node ty d attrs cs)
  then show ?case
    by (auto simp: hasID_def list_ex_iff)
qed

lemma extractSectionByID_None_iff:
  "extractSectionByID doc ident = None \<longleftrightarrow> \<not> list_ex (hasID ident) (nodes doc)"
  by (simp add: extractSectionByID_outer outerMatches_empty)

text \<open>
  C3. Subtree isolation is claimed to return the first element in document order whose id equals
  the identifier. The closure returns from its own call only, so the walk goes on through the
  remaining siblings and a later match overwrites the earlier one: with two elements of the same
  id the second is returned, although the first one precedes it in document order.
\<close>

theorem extractSectionByID_duplicate_ids:
  "extractSectionByID
     (document [element ''div'' ''reviews'' [textNode ''A''], element ''div'' ''reviews'' [textNode ''B'']])
     ''reviews'' = Some (element ''div'' ''reviews'' [textNode ''B''])
   \<and> find (hasID ''reviews'')
        (nodes (document [element ''div'' ''reviews'' [textNode ''A''], element ''div'' ''reviews'' [textNode ''B'']]))
      = Some (element ''div'' ''reviews'' [textNode ''A''])"
  by (simp add: extractSectionByID_def document_def element_def textNode_def attrMatches_def hasID_def)


section \<open>Discovery of candidate ids: duplicates\<close>

lemma insertKeys_distinct:
  "distinct ks \<Longrightarrow> distinct (foldl (\<lambda>ks m. if 1 < length m then insertKey ks (m ! 1) else ks) ks ms)"
  by (induction ms arbitrary: ks) auto

lemma findReviewIDs_distinct: "distinct (findReviewIDs rank html)"
  by (simp only: findReviewIDs_def Let_def distinct_sort insertKeys_distinct distinct.simps)

lemma set_foldl_insertKey:
  "set (foldl (\<lambda>ks m. if 1 < length m then insertKey ks (m ! 1) else ks) ks ms)
   = set ks \<union> set (map (\<lambda>m. m ! 1) (filter (\<lambda>m. 1 < length m) ms))"
  by (induction ms arbitrary: ks) auto

lemma foldl_append_keys:
  "foldl (\<lambda>ids m. if 1 < length m then ids @ [m ! 1] else ids) ks ms
   = ks @ map (\<lambda>m. m ! 1) (filter (\<lambda>m. 1 < length m) ms)"
  by (induction ms arbitrary: ks) auto

lemma set_findReviewIDs: "set (findReviewIDs rank html) = set (findReviewIDs_main html)"
  unfolding findReviewIDs_def findReviewIDs_main_def Let_def set_sort
    set_foldl_insertKey foldl_append_keys by simp

text \<open>
  C7. Discovery is claimed to return no token twice. The variant that appends every submatch to a
  slice returns an id once for each of its occurrences in the markup; the variant that collects
  the submatches as map keys does not (\<open>findReviewIDs_distinct\<close>).
\<close>

theorem findReviewIDs_main_keeps_duplicates:
  \<open>findReviewIDs_main ''<div id="reviews">A</div><div id="reviews">B</div>'' = [''reviews'', ''reviews'']
   \<and> \<not> distinct (findReviewIDs_main ''<div id="reviews">A</div><div id="reviews">B</div>'')\<close>
  by code_simp


section \<open>The matcher: what a run consumes\<close>

lemma splitsDown_mem:
  "(c, r) \<in> set (splitsDown n s) \<longleftrightarrow> (\<exists>k\<le>n. c = take k s \<and> r = drop k s)"
  by (induction n) (auto simp: le_Suc_eq)

lemma take_takeWhile:
  "k \<le> length (takeWhile P s) \<Longrightarrow> take k s = take k (takeWhile P s)"
proof -
  assume "k \<le> length (takeWhile P s)"
  then have "take k (takeWhile P s @ dropWhile P s) = take k (takeWhile P s)"
    by (simp del: takeWhile_dropWhile_id)
  then show ?thesis by simp
qed

lemma step_sound:
  assumes "(c, r) \<in> set (step i s)"
  shows "s = c @ r \<and> (\<forall>x\<in>set c. inCls (clsOf i) x)"
proof (cases i)
  case (One k)
  with assms show ?thesis by (cases s) (auto split: if_splits)
next
  case (Maybe k)
  with assms show ?thesis by (cases s) (auto split: if_splits)
next
  case (Many k)
  with assms obtain j where j: "j \<le> length (takeWhile (inCls k) s)" "c = take j s" "r = drop j s"
    by (auto simp: splitsDown_mem)
  from take_takeWhile [OF j(1)] j(2) have "set c \<subseteq> set (takeWhile (inCls k) s)"
    by (simp add: set_take_subset)
  with j Many show ?thesis by (auto dest: set_takeWhileD)
qed

lemma run_cons_iff:
  "(c, r) \<in> set (run (i # is) s) \<longleftrightarrow>
   (\<exists>a b m. c = a @ b \<and> (a, m) \<in> set (step i s) \<and> (b, r) \<in> set (run is m))"
  by force

lemma run_sound:
  "(c, r) \<in> set (run is s) \<Longrightarrow> s = c @ r \<and> (\<forall>x\<in>set c. \<exists>i\<in>set is. inCls (clsOf i) x)"
proof (induction "is" arbitrary: s c r)
  case Nil
  then show ?case by simp
next
  case (Cons i "is")
  from Cons.prems obtain a b m where
    c: "c = a @ b" and a: "(a, m) \<in> set (step i s)" and b: "(b, r) \<in> set (run is m)"
    unfolding run_cons_iff by blast
  from step_sound [OF a] Cons.IH [OF b] c show ?case by auto
qed

lemma run_cons_mem:
  "(a, m) \<in> set (step i s) \<Longrightarrow> (b, r) \<in> set (run is m) \<Longrightarrow> (a @ b, r) \<in> set (run (i # is) s)"
  unfolding run_cons_iff by blast

lemma run_append_mem:
  "(a, m) \<in> set (run is1 s) \<Longrightarrow> (b, r) \<in> set (run is2 m) \<Longrightarrow> (a @ b, r) \<in> set (run (is1 @ is2) s)"
proof (induction is1 arbitrary: s a)
  case Nil
  then show ?case by simp
next
  case (Cons i is1)
  from Cons.prems(1) obtain a1 a2 m1 where
    a: "a = a1 @ a2" and s1: "(a1, m1) \<in> set (step i s)" and r1: "(a2, m) \<in> set (run is1 m1)"
    unfolding run_cons_iff by blast
  from Cons.IH [OF r1 Cons.prems(2)] s1 a show ?case
    unfolding append_Cons run_cons_iff by (metis append.assoc)
qed

lemma step_Many_mem:
  assumes "\<forall>x\<in>set a. inCls k x"
  shows "(a, r) \<in> set (step (Many k) (a @ r))"
proof -
  from assms have "takeWhile (inCls k) (a @ r) = a @ takeWhile (inCls k) r"
    by (simp add: takeWhile_append2)
  then have "length a \<le> length (takeWhile (inCls k) (a @ r))" by simp
  then show ?thesis by (auto simp: splitsDown_mem intro!: exI [of _ "length a"])
qed

lemma step_Maybe_nil: "([], s) \<in> set (step (Maybe k) s)"
  by (cases s) auto

lemma run_single_mem: "(a, r) \<in> set (step i s) \<Longrightarrow> (a, r) \<in> set (run [i] s)"
  by force

lemma run_Folds:
  "map lowerASCII r = l \<Longrightarrow> (r, s) \<in> set (run (map (\<lambda>c. One (Fold c)) l) (r @ s))"
proof (induction l arbitrary: r)
  case Nil
  then show ?case by simp
next
  case (Cons c l)
  then obtain x xs where r: "r = x # xs" "lowerASCII x = c" "map lowerASCII xs = l" by auto
  from Cons.IH [OF r(3)] r show ?case
    unfolding list.map run_cons_iff by (auto intro!: exI [of _ "[x]"])
qed

lemma concat_map_pair_mem:
  "y \<in> set (concat (map (\<lambda>(a, b). f a b) xs)) \<longleftrightarrow> (\<exists>a b. (a, b) \<in> set xs \<and> y \<in> set (f a b))"
  by auto

lemma map_pair_mem:
  "y \<in> set (map (\<lambda>(a, b). f a b) xs) \<longleftrightarrow> (\<exists>a b. (a, b) \<in> set xs \<and> y = f a b)"
  by force

lemma candidates_mem:
  "x \<in> set (concat (map (\<lambda>(a, s1). concat (map (\<lambda>(g, s2). map (\<lambda>(b, s3). ([a @ g @ b, g], s3))
                (run (after p) s2)) (run (group1 p) s1))) (run (before p) s)))
   \<longleftrightarrow> (\<exists>a' s1' g' s2' b' s3'. (a', s1') \<in> set (run (before p) s)
      \<and> (g', s2') \<in> set (run (group1 p) s1') \<and> (b', s3') \<in> set (run (after p) s2')
      \<and> x = ([a' @ g' @ b', g'], s3'))"
  unfolding concat_map_pair_mem map_pair_mem by blast

lemma matchAt_unique:
  assumes ex: "(a, s1) \<in> set (run (before p) s)" "(g, s2) \<in> set (run (group1 p) s1)"
      "(b, s3) \<in> set (run (after p) s2)"
    and uniq: "\<And>a' s1' g' s2' b' s3'. (a', s1') \<in> set (run (before p) s) \<Longrightarrow>
      (g', s2') \<in> set (run (group1 p) s1') \<Longrightarrow> (b', s3') \<in> set (run (after p) s2') \<Longrightarrow>
      a' @ g' @ b' = a @ g @ b \<and> g' = g \<and> s3' = s3"
  shows "matchAt p s = Some ([a @ g @ b, g], s3)"
proof -
  define L where "L = concat (map (\<lambda>(a, s1). concat (map (\<lambda>(g, s2). map (\<lambda>(b, s3). ([a @ g @ b, g], s3))
                (run (after p) s2)) (run (group1 p) s1))) (run (before p) s))"
  have "([a @ g @ b, g], s3) \<in> set L"
    unfolding L_def candidates_mem using ex by blast
  moreover have "x = ([a @ g @ b, g], s3)" if "x \<in> set L" for x
  proof -
    from that obtain a' s1' g' s2' b' s3' where
      m: "(a', s1') \<in> set (run (before p) s)" "(g', s2') \<in> set (run (group1 p) s1')"
        "(b', s3') \<in> set (run (after p) s2')" and x: "x = ([a' @ g' @ b', g'], s3')"
      unfolding L_def candidates_mem by blast
    from uniq [OF m] have "a' @ g' @ b' = a @ g @ b" "g' = g" "s3' = s3" by blast+
    then show ?thesis by (simp only: x)
  qed
  ultimately obtain rest where "L = ([a @ g @ b, g], s3) # rest"
    by (cases L) auto
  then show ?thesis unfolding matchAt_def L_def [symmetric] by simp
qed


section \<open>Discovery of candidate ids: which values are found\<close>

lemma first_quote_unique:
  "u @ q # r = u' @ q' # r' \<Longrightarrow> \<forall>x\<in>set u. x \<notin> Q \<Longrightarrow> \<forall>x\<in>set u'. x \<notin> Q \<Longrightarrow> q \<in> Q \<Longrightarrow> q' \<in> Q
   \<Longrightarrow> u = u' \<and> q = q' \<and> r = r'"
proof (induction u arbitrary: u')
  case Nil
  then show ?case by (cases u') auto
next
  case (Cons x u)
  then show ?case by (cases u') auto
qed

lemma lowerASCII_quote:
  assumes "x \<in> set quoteChars"
  shows "lowerASCII x = x"
proof -
  have "lowerASCII (CHR 0x22) = CHR 0x22" and "lowerASCII (CHR 0x27) = CHR 0x27"
    by code_simp+
  moreover from assms have "x = CHR 0x22 \<or> x = CHR 0x27"
    by (simp add: quoteChars_def)
  ultimately show ?thesis by auto
qed

lemma before_id:
  assumes "lowerASCII i = CHR ''i''" "lowerASCII d = CHR ''d''" "q1 \<in> set quoteChars"
  shows "run (before reviewIDPattern) ([i, d, CHR ''='', q1] @ s) = [([i, d, CHR ''='', q1], s)]"
  using assms by (simp add: reviewIDPattern_def)

lemma group_no_quote:
  assumes "(g, s2) \<in> set (run (group1 reviewIDPattern) s1)"
  shows "\<forall>x\<in>set g. x \<notin> set quoteChars"
proof
  fix x assume "x \<in> set g"
  with run_sound [OF assms] obtain i where
    i: "i \<in> set (group1 reviewIDPattern)" "inCls (clsOf i) x" by blast
  show "x \<notin> set quoteChars"
  proof
    assume q: "x \<in> set quoteChars"
    from i lowerASCII_quote [OF q] q show False
      by (auto simp: reviewIDPattern_def quoteChars_def)
  qed
qed

lemma after_quote:
  assumes "(b, s3) \<in> set (run (after reviewIDPattern) s2)"
  shows "\<exists>x. b = [x] \<and> x \<in> set quoteChars \<and> s2 = x # s3"
  using assms by (cases s2) (auto simp: reviewIDPattern_def split: if_splits)

lemma group1_reviewIDPattern:
  "group1 reviewIDPattern =
     [Many (NegClass (quoteChars @ spaceChars))]
     @ (map (\<lambda>c. One (Fold c)) ''review'' @ [Maybe (Fold CHR ''s''), Many (NegClass quoteChars)])"
  by (simp add: reviewIDPattern_def)

lemma group_mem:
  assumes "map lowerASCII r = ''review''"
    and "set a \<inter> set (quoteChars @ spaceChars) = {}" and "set b \<inter> set quoteChars = {}"
  shows "(a @ r @ b, s) \<in> set (run (group1 reviewIDPattern) (a @ r @ b @ s))"
proof -
  have "\<forall>x\<in>set a. inCls (NegClass (quoteChars @ spaceChars)) x"
    using assms(2) by auto
  then have 1: "(a, r @ b @ s) \<in> set (run [Many (NegClass (quoteChars @ spaceChars))] (a @ r @ b @ s))"
    by (intro run_single_mem step_Many_mem)
  have 2: "(r, b @ s) \<in> set (run (map (\<lambda>c. One (Fold c)) ''review'') (r @ b @ s))"
    using assms(1) by (rule run_Folds)
  have "\<forall>x\<in>set b. inCls (NegClass quoteChars) x"
    using assms(3) by auto
  then have "(b, s) \<in> set (run [Many (NegClass quoteChars)] (b @ s))"
    by (intro run_single_mem step_Many_mem)
  from run_cons_mem [OF step_Maybe_nil this]
  have 3: "(b, s) \<in> set (run [Maybe (Fold CHR ''s''), Many (NegClass quoteChars)] (b @ s))"
    by (simp only: append_Nil)
  from run_append_mem [OF 1 run_append_mem [OF 2 3]] show ?thesis
    by (simp only: group1_reviewIDPattern)
qed

lemma folded_no_quote:
  assumes "map lowerASCII r = ''review''"
  shows "\<forall>x\<in>set r. x \<notin> set quoteChars"
proof
  fix x assume x: "x \<in> set r"
  then have "lowerASCII x \<in> set (map lowerASCII r)" by simp
  with assms have l: "lowerASCII x \<in> set ''review''" by simp
  show "x \<notin> set quoteChars"
  proof
    assume q: "x \<in> set quoteChars"
    from l have "x \<in> set ''review''" unfolding lowerASCII_quote [OF q] .
    with q show False by (auto simp: quoteChars_def)
  qed
qed

lemma matchAt_id_attribute:
  assumes "lowerASCII i = CHR ''i''" "lowerASCII d = CHR ''d''"
    and "q1 \<in> set quoteChars" "q2 \<in> set quoteChars"
    and "map lowerASCII r = ''review''"
    and "set a \<inter> set (quoteChars @ spaceChars) = {}" and "set b \<inter> set quoteChars = {}"
  shows "matchAt reviewIDPattern ([i, d, CHR ''='', q1] @ (a @ r @ b) @ [q2] @ post)
    = Some ([[i, d, CHR ''='', q1] @ (a @ r @ b) @ [q2], a @ r @ b], post)"
proof -
  define v where "v = a @ r @ b"
  define s where "s = [i, d, CHR ''='', q1] @ v @ [q2] @ post"
  have bf: "run (before reviewIDPattern) s = [([i, d, CHR ''='', q1], v @ [q2] @ post)]"
    unfolding s_def by (rule before_id [OF assms(1-3)])
  have vq: "\<forall>x\<in>set v. x \<notin> set quoteChars"
    unfolding v_def using assms(6,7) folded_no_quote [OF assms(5)] by auto
  have e1: "([i, d, CHR ''='', q1], v @ [q2] @ post) \<in> set (run (before reviewIDPattern) s)"
    by (simp only: bf list.set insertI1)
  have e2: "(v, [q2] @ post) \<in> set (run (group1 reviewIDPattern) (v @ [q2] @ post))"
    using group_mem [OF assms(5-7), of "[q2] @ post"] by (simp only: v_def append_assoc)
  have "run (after reviewIDPattern) (q2 # post) = [([q2], post)]"
    using assms(4) by (simp add: reviewIDPattern_def)
  then have e3: "([q2], post) \<in> set (run (after reviewIDPattern) ([q2] @ post))"
    by simp
  have "matchAt reviewIDPattern s = Some ([[i, d, CHR ''='', q1] @ v @ [q2], v], post)"
  proof (rule matchAt_unique [OF e1 e2 e3])
    fix a' s1' g' s2' b' s3'
    assume a': "(a', s1') \<in> set (run (before reviewIDPattern) s)"
      and g': "(g', s2') \<in> set (run (group1 reviewIDPattern) s1')"
      and b': "(b', s3') \<in> set (run (after reviewIDPattern) s2')"
    from a' bf have 1: "a' = [i, d, CHR ''='', q1]" "s1' = v @ [q2] @ post" by simp_all
    from run_sound [OF g'] have 2: "s1' = g' @ s2'" by simp
    from after_quote [OF b'] obtain x where 3: "b' = [x]" "x \<in> set quoteChars" "s2' = x # s3'"
      by blast
    from 1 2 3 have "v @ q2 # post = g' @ x # s3'" by simp
    from first_quote_unique [OF this vq group_no_quote [OF g'] assms(4) 3(2)]
    have "v = g'" "q2 = x" "post = s3'" by blast+
    with 1 3 show "a' @ g' @ b' = [i, d, CHR ''='', q1] @ v @ [q2] \<and> g' = v \<and> s3' = post"
      by simp
  qed
  then show ?thesis unfolding s_def v_def .
qed

lemma scan_arrives:
  "scanArrives p k (pre @ s) (length pre) \<Longrightarrow> \<exists>ms. scan p k (pre @ s) = ms @ scan p 0 s"
proof (induction pre arbitrary: k)
  case Nil
  then have "scan p k ([] @ s) = [] @ scan p 0 s" by simp
  then show ?case by blast
next
  case (Cons c pre)
  show ?case
  proof (cases "0 < k")
    case True
    with Cons.prems have "scanArrives p (k - 1) (pre @ s) (length pre)" by simp
    from Cons.IH [OF this] True show ?thesis by simp
  next
    case False
    show ?thesis
    proof (cases "matchAt p (c # pre @ s)")
      case None
      with False Cons.prems have "scanArrives p 0 (pre @ s) (length pre)" by simp
      from Cons.IH [OF this] False None show ?thesis by simp
    next
      case (Some mr)
      obtain m rest where mr: "mr = (m, rest)" by (cases mr)
      with Some False Cons.prems have "scanArrives p (length (hd m) - 1) (pre @ s) (length pre)"
        by simp
      from Cons.IH [OF this] obtain ms where
        "scan p (length (hd m) - 1) (pre @ s) = ms @ scan p 0 s" by blast
      with Some mr False have "scan p k ((c # pre) @ s) = (m # ms) @ scan p 0 s" by simp
      then show ?thesis by blast
    qed
  qed
qed

lemma id_value_found:
  assumes "html = pre @ [i, d, CHR ''='', q1] @ v @ [q2] @ post"
    and "lowerASCII i = CHR ''i''" and "lowerASCII d = CHR ''d''"
    and "q1 \<in> set quoteChars" and "q2 \<in> set quoteChars"
    and "v = a @ r @ b" and "map lowerASCII r = ''review''"
    and "set a \<inter> set (quoteChars @ spaceChars) = {}" and "set b \<inter> set quoteChars = {}"
    and "scanArrives reviewIDPattern 0 html (length pre)"
  shows "v \<in> set (findReviewIDs rank html) \<and> v \<in> set (findReviewIDs_main html)"
proof -
  let ?s = "[i, d, CHR ''='', q1] @ v @ [q2] @ post"
  from assms(1,10) have "scanArrives reviewIDPattern 0 (pre @ ?s) (length pre)" by simp
  from scan_arrives [OF this] obtain ms where
    ms: "scan reviewIDPattern 0 (pre @ ?s) = ms @ scan reviewIDPattern 0 ?s" by blast
  from matchAt_id_attribute [OF assms(2-5) assms(7-9), of post] assms(6)
  have "matchAt reviewIDPattern ?s = Some ([[i, d, CHR ''='', q1] @ v @ [q2], v], post)" by simp
  then have "scan reviewIDPattern 0 ?s = [[i, d, CHR ''='', q1] @ v @ [q2], v]
      # scan reviewIDPattern (length ([i, d, CHR ''='', q1] @ v @ [q2]) - 1) (tl ?s)"
    by simp
  with ms assms(1) have "[[i, d, CHR ''='', q1] @ v @ [q2], v]
      \<in> set (FindAllStringSubmatch reviewIDPattern html)"
    by (simp add: FindAllStringSubmatch_def)
  then have "v \<in> set (findReviewIDs_main html)"
    unfolding findReviewIDs_main_def Let_def foldl_append_keys by force
  then show ?thesis by (simp add: set_findReviewIDs)
qed

lemma run_One_inv:
  assumes "(c, r) \<in> set (run (One k # is) s)"
  shows "\<exists>x s' c'. s = x # s' \<and> inCls k x \<and> c = x # c' \<and> (c', r) \<in> set (run is s')"
proof -
  from assms obtain a b m where
    c: "c = a @ b" and a: "(a, m) \<in> set (step (One k) s)" and b: "(b, r) \<in> set (run is m)"
    unfolding run_cons_iff by blast
  from a obtain x where "s = x # m" "inCls k x" "a = [x]"
    by (cases s) (auto split: if_splits)
  with c b show ?thesis by simp
qed

lemma run_append_inv:
  "(c, r) \<in> set (run (is1 @ is2) s) \<Longrightarrow>
   \<exists>a b m. c = a @ b \<and> (a, m) \<in> set (run is1 s) \<and> (b, r) \<in> set (run is2 m)"
proof (induction is1 arbitrary: s c)
  case Nil
  then show ?case by simp
next
  case (Cons i is1)
  from Cons.prems obtain a1 b1 m1 where
    c: "c = a1 @ b1" and s1: "(a1, m1) \<in> set (step i s)" and r1: "(b1, r) \<in> set (run (is1 @ is2) m1)"
    unfolding append_Cons run_cons_iff by blast
  from Cons.IH [OF r1] obtain a2 b m where
    b1: "b1 = a2 @ b" and r2: "(a2, m) \<in> set (run is1 m1)" and r3: "(b, r) \<in> set (run is2 m)"
    by blast
  from run_cons_mem [OF s1 r2] have "(a1 @ a2, m) \<in> set (run (i # is1) s)" .
  with c b1 r3 show ?case by (metis append.assoc)
qed

lemma run_Folds_inv:
  "(c, r) \<in> set (run (map (\<lambda>x. One (Fold x)) l) s) \<Longrightarrow> map lowerASCII c = l"
proof (induction l arbitrary: s c)
  case Nil
  then show ?case by simp
next
  case (Cons y l)
  from Cons.prems have "(c, r) \<in> set (run (One (Fold y) # map (\<lambda>x. One (Fold x)) l) s)"
    by (simp only: list.map)
  from run_One_inv [OF this] obtain x s' c' where
    "inCls (Fold y) x" "c = x # c'" "(c', r) \<in> set (run (map (\<lambda>x. One (Fold x)) l) s')"
    by blast
  with Cons.IH [of c' s'] show ?case by simp
qed

lemma before_inv:
  assumes "(a, s1) \<in> set (run (before reviewIDPattern) t)"
  shows "\<exists>i d q1. a = [i, d, CHR ''='', q1] \<and> lowerASCII i = CHR ''i'' \<and> lowerASCII d = CHR ''d''
    \<and> q1 \<in> set quoteChars \<and> t = a @ s1"
proof -
  have bf: "before reviewIDPattern
    = [One (Fold CHR ''i''), One (Fold CHR ''d''), One (Class ''=''), One (Class quoteChars)]"
    by (simp add: reviewIDPattern_def)
  from run_One_inv [OF assms [unfolded bf]] obtain i t1 c1 where
    1: "t = i # t1" "inCls (Fold CHR ''i'') i" "a = i # c1"
      "(c1, s1) \<in> set (run [One (Fold CHR ''d''), One (Class ''=''), One (Class quoteChars)] t1)"
    by blast
  from run_One_inv [OF 1(4)] obtain d t2 c2 where
    2: "t1 = d # t2" "inCls (Fold CHR ''d'') d" "c1 = d # c2"
      "(c2, s1) \<in> set (run [One (Class ''=''), One (Class quoteChars)] t2)"
    by blast
  from run_One_inv [OF 2(4)] obtain e t3 c3 where
    3: "t2 = e # t3" "inCls (Class ''='') e" "c2 = e # c3"
      "(c3, s1) \<in> set (run [One (Class quoteChars)] t3)"
    by blast
  from run_One_inv [OF 3(4)] obtain q t4 c4 where
    4: "t3 = q # t4" "inCls (Class quoteChars) q" "c3 = q # c4" "(c4, s1) \<in> set (run [] t4)"
    by blast
  from 4(4) have 5: "c4 = []" "t4 = s1" by simp_all
  from 1 2 3 4 5 show ?thesis by simp
qed

lemma group_inv:
  assumes "(g, s2) \<in> set (run (group1 reviewIDPattern) s1)"
  shows "\<exists>a r b. g = a @ r @ b \<and> map lowerASCII r = ''review''
    \<and> set a \<inter> set (quoteChars @ spaceChars) = {} \<and> set b \<inter> set quoteChars = {}"
proof -
  from run_append_inv [OF assms [unfolded group1_reviewIDPattern]] obtain a g' m where
    g: "g = a @ g'" and a: "(a, m) \<in> set (run [Many (NegClass (quoteChars @ spaceChars))] s1)"
    and g': "(g', s2) \<in> set (run (map (\<lambda>c. One (Fold c)) ''review''
        @ [Maybe (Fold CHR ''s''), Many (NegClass quoteChars)]) m)"
    by blast
  from run_append_inv [OF g'] obtain r b m' where
    g'': "g' = r @ b" and r: "(r, m') \<in> set (run (map (\<lambda>c. One (Fold c)) ''review'') m)"
    and b: "(b, s2) \<in> set (run [Maybe (Fold CHR ''s''), Many (NegClass quoteChars)] m')"
    by blast
  from run_Folds_inv [OF r] have fold: "map lowerASCII r = ''review''" .
  from run_sound [OF a] have "\<forall>x\<in>set a. x \<notin> set (quoteChars @ spaceChars)" by simp
  then have sa: "set a \<inter> set (quoteChars @ spaceChars) = {}" by blast
  have "x \<notin> set quoteChars" if "x \<in> set b" for x
  proof
    assume q: "x \<in> set quoteChars"
    from run_sound [OF b] that have "lowerASCII x = CHR ''s'' \<or> x \<notin> set quoteChars" by auto
    with q lowerASCII_quote [OF q] show False by (auto simp: quoteChars_def)
  qed
  then have sb: "set b \<inter> set quoteChars = {}" by blast
  from g g'' have "g = a @ r @ b" by simp
  with fold sa sb show ?thesis by (intro exI [of _ a] exI [of _ r] exI [of _ b]) simp
qed

lemma matchAt_inv:
  assumes "matchAt p t = Some (m, rest)"
  shows "\<exists>a s1 g s2 b. (a, s1) \<in> set (run (before p) t) \<and> (g, s2) \<in> set (run (group1 p) s1)
    \<and> (b, rest) \<in> set (run (after p) s2) \<and> m = [a @ g @ b, g]"
proof -
  define L where "L = concat (map (\<lambda>(a, s1). concat (map (\<lambda>(g, s2). map (\<lambda>(b, s3). ([a @ g @ b, g], s3))
                (run (after p) s2)) (run (group1 p) s1))) (run (before p) t))"
  from assms have "(m, rest) \<in> set L"
    unfolding matchAt_def L_def [symmetric] by (cases L) auto
  then show ?thesis unfolding L_def candidates_mem by blast
qed

lemma scan_mem:
  "m \<in> set (scan p k s) \<Longrightarrow>
   \<exists>pre t rest. s = pre @ t \<and> scanArrives p k s (length pre) \<and> matchAt p t = Some (m, rest)"
proof (induction s arbitrary: k)
  case Nil
  then show ?case by simp
next
  case (Cons c cs)
  show ?case
  proof (cases "0 < k")
    case True
    with Cons.prems have "m \<in> set (scan p (k - 1) cs)" by simp
    from Cons.IH [OF this] obtain pre t rest where
      "cs = pre @ t" "scanArrives p (k - 1) cs (length pre)" "matchAt p t = Some (m, rest)" by blast
    with True have "c # cs = (c # pre) @ t \<and> scanArrives p k (c # cs) (length (c # pre))
      \<and> matchAt p t = Some (m, rest)" by simp
    then show ?thesis by blast
  next
    case False
    show ?thesis
    proof (cases "matchAt p (c # cs)")
      case None
      with False Cons.prems have "m \<in> set (scan p 0 cs)" by simp
      from Cons.IH [OF this] obtain pre t rest where
        "cs = pre @ t" "scanArrives p 0 cs (length pre)" "matchAt p t = Some (m, rest)" by blast
      with False None have "c # cs = (c # pre) @ t \<and> scanArrives p k (c # cs) (length (c # pre))
        \<and> matchAt p t = Some (m, rest)" by simp
      then show ?thesis by blast
    next
      case (Some mr)
      obtain m' rest' where mr: "mr = (m', rest')" by (cases mr)
      with Some False Cons.prems
      consider "m = m'" | "m \<in> set (scan p (length (hd m') - 1) cs)" by auto
      then show ?thesis
      proof cases
        case 1
        with Some mr False have "c # cs = [] @ (c # cs) \<and> scanArrives p k (c # cs) (length ([] :: string))
          \<and> matchAt p (c # cs) = Some (m, rest')" by simp
        then show ?thesis by blast
      next
        case 2
        from Cons.IH [OF this] obtain pre t rest where
          "cs = pre @ t" "scanArrives p (length (hd m') - 1) cs (length pre)"
          "matchAt p t = Some (m, rest)" by blast
        with False Some mr have "c # cs = (c # pre) @ t \<and> scanArrives p k (c # cs) (length (c # pre))
          \<and> matchAt p t = Some (m, rest)" by simp
        then show ?thesis by blast
      qed
    qed
  qed
qed

lemma match_shape:
  assumes "matchAt reviewIDPattern t = Some (m, rest)"
  shows "\<exists>i d q1 v q2 a r b. m = [[i, d, CHR ''='', q1] @ v @ [q2], v]
    \<and> t = [i, d, CHR ''='', q1] @ v @ [q2] @ rest
    \<and> lowerASCII i = CHR ''i'' \<and> lowerASCII d = CHR ''d''
    \<and> q1 \<in> set quoteChars \<and> q2 \<in> set quoteChars
    \<and> v = a @ r @ b \<and> map lowerASCII r = ''review''
    \<and> set a \<inter> set (quoteChars @ spaceChars) = {} \<and> set b \<inter> set quoteChars = {}"
proof -
  from matchAt_inv [OF assms] obtain a0 s1 g s2 b0 where
    bf: "(a0, s1) \<in> set (run (before reviewIDPattern) t)"
    and gr: "(g, s2) \<in> set (run (group1 reviewIDPattern) s1)"
    and af: "(b0, rest) \<in> set (run (after reviewIDPattern) s2)"
    and m: "m = [a0 @ g @ b0, g]" by blast
  from before_inv [OF bf] obtain i d q1 where
    a0: "a0 = [i, d, CHR ''='', q1]" "lowerASCII i = CHR ''i''" "lowerASCII d = CHR ''d''"
      "q1 \<in> set quoteChars" "t = a0 @ s1" by blast
  from run_sound [OF gr] have s1: "s1 = g @ s2" by simp
  from after_quote [OF af] obtain q2 where b0: "b0 = [q2]" "q2 \<in> set quoteChars" "s2 = q2 # rest"
    by blast
  from group_inv [OF gr] obtain a r b where
    g: "g = a @ r @ b" "map lowerASCII r = ''review''"
      "set a \<inter> set (quoteChars @ spaceChars) = {}" "set b \<inter> set quoteChars = {}"
    by (elim exE conjE)
  have m': "m = [[i, d, CHR ''='', q1] @ g @ [q2], g]" using m a0(1) b0(1) by simp
  have t': "t = [i, d, CHR ''='', q1] @ g @ [q2] @ rest" using a0(1,5) s1 b0(3) by simp
  show ?thesis
    apply (intro exI conjI)
             apply (rule m')
            apply (rule t')
           apply (rule a0(2))
          apply (rule a0(3))
         apply (rule a0(4))
        apply (rule b0(2))
       apply (rule g(1))
      apply (rule g(2))
     apply (rule g(3))
    apply (rule g(4))
    done
qed

text \<open>
  C6, as amended. Discovery matches without regard to case, and it returns exactly the texts
  \<open>v\<close> that stand in the markup as follows: the letters \<open>id\<close> in either case, the sign \<open>=\<close>
  and a single or double quote, with nothing between them, then \<open>v\<close>, then a single or double
  quote, where \<open>v\<close> holds no quote and reads \<open>a @ r @ b\<close> with \<open>r\<close> the word review in any
  case and no whitespace in \<open>a\<close>, at a place where the scan from the left arrives, that is, no
  earlier match runs over it. So every returned value contains the word, and every such
  occurrence is returned. Both variants of the discovery return the same values.
\<close>

theorem discovered_ids_characterised:
  "(v \<in> set (findReviewIDs rank html) \<longleftrightarrow>
      (\<exists>pre i d q1 q2 a r b post.
          html = pre @ [i, d, CHR ''='', q1] @ v @ [q2] @ post
        \<and> lowerASCII i = CHR ''i'' \<and> lowerASCII d = CHR ''d''
        \<and> q1 \<in> set quoteChars \<and> q2 \<in> set quoteChars
        \<and> v = a @ r @ b \<and> map lowerASCII r = ''review''
        \<and> set a \<inter> set (quoteChars @ spaceChars) = {} \<and> set b \<inter> set quoteChars = {}
        \<and> scanArrives reviewIDPattern 0 html (length pre)))
   \<and> set (findReviewIDs_main html) = set (findReviewIDs rank html)"
proof (intro conjI iffI)
  assume "v \<in> set (findReviewIDs rank html)"
  then have "v \<in> set (findReviewIDs_main html)" by (simp add: set_findReviewIDs)
  then obtain m where m: "m \<in> set (scan reviewIDPattern 0 html)" and v: "v = m ! 1"
    unfolding findReviewIDs_main_def Let_def foldl_append_keys FindAllStringSubmatch_def by auto
  from scan_mem [OF m] obtain pre t rest where
    html: "html = pre @ t" and arr: "scanArrives reviewIDPattern 0 html (length pre)"
    and mt: "matchAt reviewIDPattern t = Some (m, rest)" by blast
  from match_shape [OF mt] obtain i d q1 v' q2 a r b where
    sh: "m = [[i, d, CHR ''='', q1] @ v' @ [q2], v']"
      "t = [i, d, CHR ''='', q1] @ v' @ [q2] @ rest"
      "lowerASCII i = CHR ''i''" "lowerASCII d = CHR ''d''"
      "q1 \<in> set quoteChars" "q2 \<in> set quoteChars"
      "v' = a @ r @ b" "map lowerASCII r = ''review''"
      "set a \<inter> set (quoteChars @ spaceChars) = {}" "set b \<inter> set quoteChars = {}"
    by (elim exE conjE)
  from v sh(1) have vv: "v' = v" by simp
  have h: "html = pre @ [i, d, CHR ''='', q1] @ v @ [q2] @ rest"
    using html sh(2) vv by simp
  show "\<exists>pre i d q1 q2 a r b post.
          html = pre @ [i, d, CHR ''='', q1] @ v @ [q2] @ post
        \<and> lowerASCII i = CHR ''i'' \<and> lowerASCII d = CHR ''d''
        \<and> q1 \<in> set quoteChars \<and> q2 \<in> set quoteChars
        \<and> v = a @ r @ b \<and> map lowerASCII r = ''review''
        \<and> set a \<inter> set (quoteChars @ spaceChars) = {} \<and> set b \<inter> set quoteChars = {}
        \<and> scanArrives reviewIDPattern 0 html (length pre)"
    apply (intro exI conjI)
             apply (rule h)
            apply (rule sh(3))
           apply (rule sh(4))
          apply (rule sh(5))
         apply (rule sh(6))
        apply (rule sh(7) [unfolded vv])
       apply (rule sh(8))
      apply (rule sh(9))
     apply (rule sh(10))
    apply (rule arr)
    done
next
  assume "\<exists>pre i d q1 q2 a r b post.
          html = pre @ [i, d, CHR ''='', q1] @ v @ [q2] @ post
        \<and> lowerASCII i = CHR ''i'' \<and> lowerASCII d = CHR ''d''
        \<and> q1 \<in> set quoteChars \<and> q2 \<in> set quoteChars
        \<and> v = a @ r @ b \<and> map lowerASCII r = ''review''
        \<and> set a \<inter> set (quoteChars @ spaceChars) = {} \<and> set b \<inter> set quoteChars = {}
        \<and> scanArrives reviewIDPattern 0 html (length pre)"
  then obtain pre i d q1 q2 a r b post where
    "html = pre @ [i, d, CHR ''='', q1] @ v @ [q2] @ post"
    "lowerASCII i = CHR ''i''" "lowerASCII d = CHR ''d''"
    "q1 \<in> set quoteChars" "q2 \<in> set quoteChars"
    "v = a @ r @ b" "map lowerASCII r = ''review''"
    "set a \<inter> set (quoteChars @ spaceChars) = {}" "set b \<inter> set quoteChars = {}"
    "scanArrives reviewIDPattern 0 html (length pre)"
    by (elim exE conjE)
  from id_value_found [OF this, of rank] show "v \<in> set (findReviewIDs rank html)" by simp
next
  show "set (findReviewIDs_main html) = set (findReviewIDs rank html)"
    by (simp add: set_findReviewIDs)
qed

theorem discovered_ids_characterised_witness:
  \<open>''Product_Reviews_2'' \<in> set (findReviewIDs insertionOrder
       ''<h2 id="reviews-title">Reviews</h2><ul ID='Product_Reviews_2'>'')
   \<and> set (findReviewIDs_main ''<h2 id="reviews-title">Reviews</h2><ul ID='Product_Reviews_2'>'')
     = set (findReviewIDs insertionOrder ''<h2 id="reviews-title">Reviews</h2><ul ID='Product_Reviews_2'>'')\<close>
proof -
  let ?html = \<open>''<h2 id="reviews-title">Reviews</h2><ul ID='Product_Reviews_2'>''\<close>
  have h1: \<open>?html
      = ''<h2 id="reviews-title">Reviews</h2><ul '' @ [CHR ''I'', CHR ''D'', CHR ''='', CHR 0x27]
        @ ''Product_Reviews_2'' @ [CHR 0x27] @ ''>''\<close>
    by simp
  have h2: "lowerASCII CHR ''I'' = CHR ''i''" and h3: "lowerASCII CHR ''D'' = CHR ''d''"
    by code_simp+
  have h4: "CHR 0x27 \<in> set quoteChars" by (simp add: quoteChars_def)
  have h6: "''Product_Reviews_2'' = ''Product_'' @ ''Review'' @ ''s_2''" by simp
  have h7: "map lowerASCII ''Review'' = ''review''" by code_simp
  have h8: "set ''Product_'' \<inter> set (quoteChars @ spaceChars) = {}"
    by (simp add: quoteChars_def spaceChars_def)
  have h9: "set ''s_2'' \<inter> set quoteChars = {}" by (simp add: quoteChars_def)
  have h10: \<open>scanArrives reviewIDPattern 0 ?html
      (length ''<h2 id="reviews-title">Reviews</h2><ul '')\<close>
    by code_simp
  have ex: "\<exists>pre i d q1 q2 a r b post.
          ?html = pre @ [i, d, CHR ''='', q1] @ ''Product_Reviews_2'' @ [q2] @ post
        \<and> lowerASCII i = CHR ''i'' \<and> lowerASCII d = CHR ''d''
        \<and> q1 \<in> set quoteChars \<and> q2 \<in> set quoteChars
        \<and> ''Product_Reviews_2'' = a @ r @ b \<and> map lowerASCII r = ''review''
        \<and> set a \<inter> set (quoteChars @ spaceChars) = {} \<and> set b \<inter> set quoteChars = {}
        \<and> scanArrives reviewIDPattern 0 ?html (length pre)"
    apply (intro exI conjI)
             apply (rule h1)
            apply (rule h2)
           apply (rule h3)
          apply (rule h4)
         apply (rule h4)
        apply (rule h6)
       apply (rule h7)
      apply (rule h8)
     apply (rule h9)
    apply (rule h10)
    done
  note inst = discovered_ids_characterised [of "''Product_Reviews_2''" insertionOrder ?html]
  from inst [THEN conjunct1, THEN iffD2, OF ex] inst [THEN conjunct2]
  show ?thesis by (rule conjI)
qed

text \<open>
  The claim as stated fails for a value with whitespace before the word: the first class of the
  group excludes whitespace, so \<open>id="my review"\<close> is not matched, while \<open>id="Review"\<close> and
  \<open>id="Product_Reviews_2"\<close> are. An attribute written with spaces around the sign \<open>=\<close> or
  without quotes is not matched either, and an attribute that an earlier match has run over
  is passed by.
\<close>

theorem whitespace_before_review_not_discovered:
  \<open>findReviewIDs_main ''<div id="Review"><ul id="Product_Reviews_2"><p id="my review">''
     = [''Review'', ''Product_Reviews_2'']
   \<and> findReviewIDs insertionOrder ''<div id="Review"><ul id="Product_Reviews_2"><p id="my review">''
     = [''Review'', ''Product_Reviews_2'']
   \<and> ''my review'' \<notin> set (findReviewIDs insertionOrder
         ''<div id="Review"><ul id="Product_Reviews_2"><p id="my review">'')
   \<and> findReviewIDs insertionOrder ''<div id = "reviews">'' = []
   \<and> findReviewIDs_main ''<div id = "reviews">'' = []
   \<and> findReviewIDs insertionOrder ''<div id=reviews>'' = []
   \<and> findReviewIDs_main ''<div id=reviews>'' = []
   \<and> findReviewIDs insertionOrder ''<p>id='review</p><div id="reviews">'' = [''review</p><div id='']
   \<and> findReviewIDs_main ''<p>id='review</p><div id="reviews">'' = [''review</p><div id='']\<close>
  by code_simp


section \<open>The array of a reply\<close>

lemma matchAt_json_skip: "CHR ''['' \<noteq> c \<Longrightarrow> matchAt jsonRegex (c # cs) = None"
  by (simp add: matchAt_def jsonRegex_def)

lemma FindString_skip:
  "CHR ''['' \<notin> set pre \<Longrightarrow> FindString jsonRegex (pre @ s) = FindString jsonRegex s"
  by (induction pre) (simp_all add: matchAt_json_skip)

lemma run_One_no_bracket:
  "CHR '']'' \<notin> set t \<Longrightarrow> run [One (Class '']'')] t = []"
  by (cases t) auto

lemma splitsDown_skip:
  assumes "\<And>k. j < k \<Longrightarrow> k \<le> n \<Longrightarrow> G (take k s, drop k s) = []" and "j \<le> n"
  shows "concat (map G (splitsDown n s)) = concat (map G (splitsDown j s))"
  using assms
proof (induction n)
  case 0
  then show ?case by simp
next
  case (Suc n)
  show ?case
  proof (cases "j = Suc n")
    case True
    then show ?thesis by simp
  next
    case False
    with Suc.prems have le: "j \<le> n" by simp
    from Suc.prems(1) [of "Suc n"] le have "G (take (Suc n) s, drop (Suc n) s) = []" by simp
    moreover have "concat (map G (splitsDown n s)) = concat (map G (splitsDown j s))"
      using Suc.prems(1) le by (intro Suc.IH) simp_all
    ultimately show ?thesis by simp
  qed
qed

lemma splitsDown_head:
  "\<exists>rest. splitsDown j s = (take j s, drop j s) # rest"
  by (cases j) simp_all

lemma run_greedy_to_last_bracket:
  assumes "CHR '']'' \<notin> set post"
  shows "\<exists>more. run [Many AnyChar, One (Class '']'')] (body @ CHR '']'' # post)
    = (body @ [CHR '']''], post) # more"
proof -
  define t where "t = body @ CHR '']'' # post"
  define G :: "string \<times> string \<Rightarrow> (string \<times> string) list" where
    "G = (\<lambda>(a, s'). map (\<lambda>(b, s''). (a @ b, s'')) (run [One (Class '']'')] s'))"
  have whole: "takeWhile (inCls AnyChar) t = t" by simp
  have unfold: "run [Many AnyChar, One (Class '']'')] t = concat (map G (splitsDown (length t) t))"
    unfolding G_def by (simp only: run.simps step.simps whole)
  have none: "G (take k t, drop k t) = []" if "length body < k" "k \<le> length t" for k
  proof -
    from that(1) obtain m where "k = Suc (length body) + m"
      using less_iff_Suc_add by auto
    then have "drop k t = drop (k - Suc (length body)) post"
      by (simp add: t_def)
    moreover have "CHR '']'' \<notin> set (drop (k - Suc (length body)) post)"
      using assms by (auto dest: in_set_dropD)
    ultimately show ?thesis by (simp add: G_def run_One_no_bracket del: run.simps)
  qed
  have "length body \<le> length t" by (simp add: t_def)
  from splitsDown_skip [of "length body" "length t" G t, OF none this]
  have skip: "concat (map G (splitsDown (length t) t)) = concat (map G (splitsDown (length body) t))"
    by simp
  obtain rest where rest: "splitsDown (length body) t = (take (length body) t, drop (length body) t) # rest"
    using splitsDown_head by blast
  have here: "G (take (length body) t, drop (length body) t) = [(body @ [CHR '']''], post)]"
    by (simp add: G_def t_def)
  have "run [Many AnyChar, One (Class '']'')] t = (body @ [CHR '']''], post) # concat (map G rest)"
    by (simp only: unfold skip rest list.map concat.simps here append_Cons append_Nil)
  then show ?thesis unfolding t_def by blast
qed

lemma matchAt_json:
  assumes "CHR '']'' \<notin> set post"
  shows "matchAt jsonRegex (CHR ''['' # body @ CHR '']'' # post)
    = Some ([CHR ''['' # body @ [CHR '']''], []], post)"
proof -
  from run_greedy_to_last_bracket [OF assms] obtain more where
    "run [Many AnyChar, One (Class '']'')] (body @ CHR '']'' # post) = (body @ [CHR '']''], post) # more"
    by blast
  then have "run (before jsonRegex) (CHR ''['' # body @ CHR '']'' # post)
    = (CHR ''['' # body @ [CHR '']''], post) # map (\<lambda>(b, s''). (CHR ''['' # b, s'')) more"
    by (simp add: jsonRegex_def del: run.simps add: run.simps(2) [of "One (Class ''['')"] run.simps(1))
  then show ?thesis by (simp add: matchAt_def jsonRegex_def del: run.simps add: run.simps(1))
qed

lemma FindString_json:
  assumes "CHR ''['' \<notin> set pre" and "CHR '']'' \<notin> set post"
  shows "FindString jsonRegex (pre @ ''['' @ body @ '']'' @ post) = ''['' @ body @ '']''"
proof -
  have "FindString jsonRegex (pre @ ''['' @ body @ '']'' @ post)
    = FindString jsonRegex (CHR ''['' # body @ CHR '']'' # post)"
    using FindString_skip [OF assms(1)] by simp
  also have "\<dots> = CHR ''['' # body @ [CHR '']'']"
    by (simp add: matchAt_json [OF assms(2)])
  finally show ?thesis by simp
qed

lemma extract_array_text:
  assumes "GenerateFromSinglePrompt env (prompt sectionHTML) w = (Inr (pre @ ''['' @ body @ '']'' @ post), w')"
    and "CHR ''['' \<notin> set pre" and "CHR '']'' \<notin> set post"
    and "Unmarshal env (''['' @ body @ '']'') = Inr reviews"
  shows "extractReviewDataUsingLLM env sectionHTML w = (Inr reviews, w')"
  using assms(1,4) FindString_json [OF assms(2,3), of body]
  by (simp add: extractReviewDataUsingLLM_def)


section \<open>The decoder on the texts of the fragment\<close>

lemma ws_run:
  assumes "list_all jsonSpace ws"
    and "S \<in> {JArrOpen, JObjOpen, JAfterVal, JNextKey, JAfterObj, JNextObj} \<or> (\<exists>k. S = JAfterKey k \<or> S = JBeforeVal k)"
  shows "foldl jstep (S, r, rs) ws = (S, r, rs)"
  using assms by (induction ws) auto

lemma raw_run:
  "list_all plainByte bs \<Longrightarrow>
   foldl jstep (JStr ctx acc SPlain, r, rs) bs = (JStr ctx (acc @ bs) SPlain, r, rs)"
  by (induction bs arbitrary: acc) (simp_all add: plainByte_def plainStep_def)

lemma simple_run:
  "unescape e = Some d \<Longrightarrow>
   foldl jstep (JStr ctx acc SPlain, r, rs) [CHR 0x5C, e] = (JStr ctx (acc @ [d]) SPlain, r, rs)"
proof -
  assume u: "unescape e = Some d"
  have "e \<noteq> CHR ''u''"
  proof
    assume "e = CHR ''u''"
    with u show False by (simp add: unescape_def)
  qed
  with u show ?thesis by (simp add: plainStep_def escStep_def)
qed

lemma hex4_cases:
  assumes "hex4 hs"
  obtains a b c d da db dc dd where "hs = [a, b, c, d]"
    "hexVal a = Some da" "hexVal b = Some db" "hexVal c = Some dc" "hexVal d = Some dd"
proof -
  from assms have len: "length hs = 4" and all: "list_all (\<lambda>c. hexVal c \<noteq> None) hs"
    by (simp_all add: hex4_def)
  from len obtain a b c d where hs: "hs = [a, b, c, d]"
    by (auto simp: length_Suc_conv numeral_eq_Suc)
  with all obtain da db dc dd where
    "hexVal a = Some da" "hexVal b = Some db" "hexVal c = Some dc" "hexVal d = Some dd" by auto
  with hs that show ?thesis by blast
qed

lemma hex_run:
  assumes "hex4 hs"
  shows "foldl jstep (JStr ctx acc (SHex 0 0), r, rs) hs
    = (case unitStep acc (hexCode hs) of
         More acc' mode' \<Rightarrow> (JStr ctx acc' mode', r, rs)
       | Closed v \<Rightarrow> (JBad, r, rs)
       | Fail \<Rightarrow> (JBad, r, rs))"
proof -
  from assms obtain a b c d da db dc dd where hs: "hs = [a, b, c, d]"
    and hv: "hexVal a = Some da" "hexVal b = Some db" "hexVal c = Some dc" "hexVal d = Some dd"
    by (rule hex4_cases)
  show ?thesis
    unfolding hs by (simp add: hv hexCode_def unitStep_def)
qed

lemma unit_run:
  assumes "hex4 hs" "\<not> isHigh (hexCode hs)" "\<not> isLow (hexCode hs)"
  shows "foldl jstep (JStr ctx acc SPlain, r, rs) (CHR 0x5C # CHR ''u'' # hs)
    = (JStr ctx (acc @ utf8Encode (hexCode hs)) SPlain, r, rs)"
  using assms(2,3) by (simp add: plainStep_def escStep_def hex_run [OF assms(1)] unitStep_def)

lemma highhex_run:
  assumes "hex4 ls" "isLow (hexCode ls)"
  shows "foldl jstep (JStr ctx acc (SHighHex h 0 0), r, rs) ls
    = (JStr ctx (acc @ utf8Encode (combine h (hexCode ls))) SPlain, r, rs)"
proof -
  from assms(1) obtain a b c d da db dc dd where ls: "ls = [a, b, c, d]"
    and hv: "hexVal a = Some da" "hexVal b = Some db" "hexVal c = Some dc" "hexVal d = Some dd"
    by (rule hex4_cases)
  from assms(2) show ?thesis
    unfolding ls by (simp add: hv hexCode_def)
qed

lemma pair_run:
  assumes "hex4 hs" "hex4 ls" "isHigh (hexCode hs)" "isLow (hexCode ls)"
  shows "foldl jstep (JStr ctx acc SPlain, r, rs) (CHR 0x5C # CHR ''u'' # hs @ CHR 0x5C # CHR ''u'' # ls)
    = (JStr ctx (acc @ utf8Encode (combine (hexCode hs) (hexCode ls))) SPlain, r, rs)"
  using assms(3)
  by (simp add: plainStep_def escStep_def hex_run [OF assms(1)] unitStep_def
      highhex_run [OF assms(2,4)])

lemma piece_run:
  "validPiece p \<Longrightarrow>
   foldl jstep (JStr ctx acc SPlain, r, rs) (writePiece p) = (JStr ctx (acc @ pieceValue p) SPlain, r, rs)"
proof (cases p)
  case (Raw bs)
  assume "validPiece p"
  with Raw show ?thesis by (simp add: raw_run)
next
  case (Simple e)
  assume "validPiece p"
  with Simple obtain d where "unescape e = Some d" by auto
  with Simple simple_run [OF this] show ?thesis by simp
next
  case (Unicode hs)
  assume "validPiece p"
  with Unicode unit_run [of hs ctx acc r rs] show ?thesis by simp
next
  case (Surrogates hs ls)
  assume "validPiece p"
  with Surrogates pair_run [of hs ls ctx acc r rs] show ?thesis by simp
qed

lemma lit_run:
  "list_all validPiece ps \<Longrightarrow>
   foldl jstep (JStr ctx acc SPlain, r, rs) (concat (map writePiece ps))
     = (JStr ctx (acc @ litValue ps) SPlain, r, rs)"
proof (induction ps arbitrary: acc)
  case Nil
  show ?case by (simp add: litValue_def)
next
  case (Cons p ps)
  then have "validPiece p" "list_all validPiece ps" by simp_all
  with Cons.IH [of "acc @ pieceValue p"] piece_run [of p ctx acc r rs]
  show ?case by (simp add: litValue_def)
qed

lemma key_run:
  assumes "list_all validPiece k" and "S = JObjOpen \<or> S = JNextKey"
  shows "foldl jstep (S, r, rs) (writeLit k) = (JAfterKey (litValue k), r, rs)"
proof -
  have "jstep (S, r, rs) (CHR 0x22) = (JStr KeyCtx [] SPlain, r, rs)"
    using assms(2) by (auto simp: jsonSpace_def)
  then show ?thesis
    by (simp add: writeLit_def lit_run [OF assms(1)] plainStep_def)
qed

lemma val_run:
  assumes "validValue v"
  shows "foldl jstep (JBeforeVal k, r, rs) (writeValue v)
    = (JAfterVal, (case valueOf v of Some x \<Rightarrow> setField k x r | None \<Rightarrow> r), rs)"
proof (cases v)
  case (StringValue ps)
  with assms have ps: "list_all validPiece ps" by simp
  have "jstep (JBeforeVal k, r, rs) (CHR 0x22) = (JStr (ValCtx k) [] SPlain, r, rs)"
    by (simp add: jsonSpace_def)
  then show ?thesis
    by (simp add: StringValue writeLit_def lit_run [OF ps] plainStep_def)
next
  case NullValue
  then show ?thesis by (simp add: jsonSpace_def)
qed

lemma member_run:
  assumes "validMember m" and "S = JObjOpen \<or> S = JNextKey"
  shows "foldl jstep (S, r, rs) (writeMember m)
    = (JAfterVal, (case memberValue m of Some x \<Rightarrow> setField (memberKey m) x r | None \<Rightarrow> r), rs)"
proof (cases m)
  case (Member w1 k w2 w3 v w4)
  with assms(1) have v: "list_all jsonSpace w1" "list_all validPiece k" "list_all jsonSpace w2"
    "list_all jsonSpace w3" "validValue v" "list_all jsonSpace w4" by simp_all
  have 1: "foldl jstep (S, r, rs) w1 = (S, r, rs)"
    using assms(2) by (intro ws_run [OF v(1)]) auto
  have 2: "foldl jstep (JAfterKey (litValue k), r, rs) w2 = (JAfterKey (litValue k), r, rs)"
    by (intro ws_run [OF v(3)]) auto
  have 3: "jstep (JAfterKey (litValue k), r, rs) (CHR '':'') = (JBeforeVal (litValue k), r, rs)"
    by (simp add: jsonSpace_def)
  have 4: "foldl jstep (JBeforeVal (litValue k), r, rs) w3 = (JBeforeVal (litValue k), r, rs)"
    by (intro ws_run [OF v(4)]) auto
  have 5: "foldl jstep (JAfterVal, r', rs) w4 = (JAfterVal, r', rs)" for r'
    by (intro ws_run [OF v(6)]) auto
  show ?thesis
    unfolding Member writeMember.simps memberKey.simps memberValue.simps foldl_append foldl_Cons
      1 key_run [OF v(2) assms(2)] 2 3 4 val_run [OF v(5)] 5 ..
qed

lemma members_run:
  assumes "ms \<noteq> []" and "list_all validMember ms" and "S = JObjOpen \<or> S = JNextKey"
  shows "foldl jstep (S, r, rs) (commaSep (map writeMember ms))
    = (JAfterVal, foldl (\<lambda>r m. case memberValue m of Some x \<Rightarrow> setField (memberKey m) x r | None \<Rightarrow> r) r ms, rs)"
  using assms
proof (induction ms arbitrary: S r)
  case Nil
  then show ?case by simp
next
  case (Cons m ms)
  from Cons.prems have vm: "validMember m" and vms: "list_all validMember ms" by simp_all
  note first = member_run [OF vm Cons.prems(3), of r rs]
  show ?case
  proof (cases ms)
    case Nil
    with first show ?thesis by simp
  next
    case (Cons m' ms')
    note ms = this
    have comma: "jstep (JAfterVal, r', rs) (CHR '','') = (JNextKey, r', rs)" for r'
      by (simp add: jsonSpace_def)
    from ms have ne: "ms \<noteq> []" by simp
    from Cons.IH [OF ne vms, of JNextKey "(case memberValue m of Some x \<Rightarrow> setField (memberKey m) x r | None \<Rightarrow> r)"]
    have rest: "foldl jstep (JNextKey, (case memberValue m of Some x \<Rightarrow> setField (memberKey m) x r | None \<Rightarrow> r), rs)
        (commaSep (map writeMember ms))
      = (JAfterVal, foldl (\<lambda>r m. case memberValue m of Some x \<Rightarrow> setField (memberKey m) x r | None \<Rightarrow> r)
          ((case memberValue m of Some x \<Rightarrow> setField (memberKey m) x r | None \<Rightarrow> r)) ms, rs)" by simp
    have "commaSep (map writeMember (m # ms))
      = writeMember m @ CHR '','' # commaSep (map writeMember ms)"
      unfolding ms by simp
    then show ?thesis by (simp add: first rest jsonSpace_def)
  qed
qed


lemma fieldOf_snoc:
  "fieldOf name (ms @ [m]) =
     (case memberValue m of
        Some x \<Rightarrow> if map lowerASCII (memberKey m) = name then x else fieldOf name ms
      | None \<Rightarrow> fieldOf name ms)"
  by (simp add: fieldOf_def Let_def split: option.splits)

lemma setField_fold:
  "foldl (\<lambda>r m. case memberValue m of Some x \<Rightarrow> setField (memberKey m) x r | None \<Rightarrow> r) emptyReview ms
   = \<lparr> Title = fieldOf ''title'' ms, Body = fieldOf ''body'' ms,
       Rating = fieldOf ''rating'' ms, Reviewer = fieldOf ''reviewer'' ms \<rparr>"
proof (induction ms rule: rev_induct)
  case Nil
  show ?case by (simp add: emptyReview_def fieldOf_def)
next
  case (snoc m ms)
  show ?case
    unfolding foldl_append foldl_Cons foldl_Nil snoc.IH fieldOf_snoc
    by (simp add: setField_def Let_def split: option.splits)
qed

lemma fieldOf_unique:
  assumes "distinct (map (\<lambda>m. map lowerASCII (memberKey m)) ms)" and "m \<in> set ms"
    and "map lowerASCII (memberKey m) = name" and "memberValue m = Some v"
  shows "fieldOf name ms = v"
proof -
  have "filter (\<lambda>x. map lowerASCII (memberKey x) = name \<and> memberValue x \<noteq> None) ms = [m]"
    using assms
  proof (induction ms)
    case Nil
    then show ?case by simp
  next
    case (Cons x xs)
    show ?case
    proof (cases "x = m")
      case True
      from Cons.prems(1)
      have "map lowerASCII (memberKey x) \<notin> (\<lambda>m. map lowerASCII (memberKey m)) ` set xs" by simp
      with True Cons.prems(3) have "\<forall>y\<in>set xs. map lowerASCII (memberKey y) \<noteq> name"
        by (auto simp: image_iff)
      then have "filter (\<lambda>x. map lowerASCII (memberKey x) = name \<and> memberValue x \<noteq> None) xs = []"
        by (simp add: filter_empty_conv)
      with True Cons.prems(3,4) show ?thesis by simp
    next
      case False
      with Cons.prems have m: "m \<in> set xs" and d: "distinct (map (\<lambda>m. map lowerASCII (memberKey m)) xs)"
        by simp_all
      from Cons.prems(1)
      have "map lowerASCII (memberKey x) \<notin> (\<lambda>m. map lowerASCII (memberKey m)) ` set xs" by simp
      with m Cons.prems(3) have "map lowerASCII (memberKey x) \<noteq> name"
        by (auto simp: image_iff)
      with Cons.IH [OF d m Cons.prems(3,4)] show ?thesis by simp
    qed
  qed
  with assms(4) show ?thesis by (simp add: fieldOf_def)
qed

lemma object_run:
  assumes "validObject obj" and "S = JArrOpen \<or> S = JNextObj"
  shows "foldl jstep (S, r, rs) (writeObject obj) = (JAfterObj, objectReview obj, rs @ [objectReview obj])"
proof -
  have open': "jstep (S, r, rs) (CHR ''{'') = (JObjOpen, emptyReview, rs)"
    using assms(2) by (auto simp: jsonSpace_def)
  show ?thesis
  proof (cases obj)
    case (NoMembers w)
    with assms(1) have "list_all jsonSpace w" by simp
    then have "foldl jstep (JObjOpen, emptyReview, rs) w = (JObjOpen, emptyReview, rs)"
      by (intro ws_run) auto
    moreover have "objectReview obj = emptyReview"
      by (simp add: NoMembers objectReview_def fieldOf_def emptyReview_def)
    ultimately show ?thesis
      using open' by (simp add: NoMembers jsonSpace_def)
  next
    case (Members ms)
    with assms(1) have "ms \<noteq> []" "list_all validMember ms" by simp_all
    from members_run [OF this, of JObjOpen emptyReview rs]
    have "foldl jstep (JObjOpen, emptyReview, rs) (commaSep (map writeMember ms))
      = (JAfterVal, objectReview obj, rs)"
      by (simp add: setField_fold objectReview_def Members)
    then show ?thesis
      using open' by (simp add: Members jsonSpace_def)
  qed
qed

lemma element_run:
  assumes "validElement e" and "S = JArrOpen \<or> S = JNextObj"
  shows "foldl jstep (S, r, rs) (writeElement e) = (JAfterObj, elementReview e, rs @ [elementReview e])"
proof (cases e)
  case (Element w1 obj w2)
  with assms(1) have v: "list_all jsonSpace w1" "validObject obj" "list_all jsonSpace w2" by simp_all
  have 1: "foldl jstep (S, r, rs) w1 = (S, r, rs)"
    using assms(2) by (intro ws_run [OF v(1)]) auto
  have 2: "foldl jstep (JAfterObj, r', rs') w2 = (JAfterObj, r', rs')" for r' rs'
    by (intro ws_run [OF v(3)]) auto
  show ?thesis
    unfolding Element writeElement.simps elementReview.simps foldl_append 1
      object_run [OF v(2) assms(2)] 2 ..
qed

lemma elements_run:
  assumes "es \<noteq> []" and "list_all validElement es" and "S = JArrOpen \<or> S = JNextObj"
  shows "\<exists>r'. foldl jstep (S, r, rs) (commaSep (map writeElement es))
    = (JAfterObj, r', rs @ map elementReview es)"
  using assms
proof (induction es arbitrary: S r rs)
  case Nil
  then show ?case by simp
next
  case (Cons e es)
  from Cons.prems have ve: "validElement e" and ves: "list_all validElement es" by simp_all
  note first = element_run [OF ve Cons.prems(3), of r rs]
  show ?case
  proof (cases es)
    case Nil
    with first show ?thesis by simp
  next
    case (Cons e' es')
    note es = this
    from es have ne: "es \<noteq> []" by simp
    from Cons.IH [OF ne ves, of JNextObj "elementReview e" "rs @ [elementReview e]"]
    obtain r' where rest: "foldl jstep (JNextObj, elementReview e, rs @ [elementReview e])
        (commaSep (map writeElement es))
      = (JAfterObj, r', (rs @ [elementReview e]) @ map elementReview es)" by auto
    have "commaSep (map writeElement (e # es))
      = writeElement e @ CHR '','' # commaSep (map writeElement es)"
      unfolding es by simp
    then have "foldl jstep (S, r, rs) (commaSep (map writeElement (e # es)))
      = (JAfterObj, r', rs @ map elementReview (e # es))"
      by (simp add: first rest jsonSpace_def)
    then show ?thesis by blast
  qed
qed

lemma unmarshalReviews_writeArray:
  assumes "validArray t"
  shows "unmarshalReviews (writeArray t) = Inr (arrayReviews t)"
proof (cases t)
  case (NoElements w)
  with assms have "list_all jsonSpace w" by simp
  then have "foldl jstep (JArrOpen, emptyReview, []) w = (JArrOpen, emptyReview, [])"
    by (intro ws_run) auto
  then show ?thesis
    by (simp add: NoElements unmarshalReviews_def writeArray_def jsonSpace_def)
next
  case (Elements es)
  with assms have "es \<noteq> []" "list_all validElement es" by simp_all
  from elements_run [OF this, of JArrOpen emptyReview "[]"]
  obtain r' where "foldl jstep (JArrOpen, emptyReview, []) (commaSep (map writeElement es))
    = (JAfterObj, r', map elementReview es)" by auto
  then show ?thesis
    by (simp add: Elements unmarshalReviews_def writeArray_def jsonSpace_def)
qed


section \<open>The reviews of a reply\<close>

text \<open>
  C8, as amended. The pattern for the array is greedy: the match runs from the first opening
  bracket of the reply to its last closing bracket. Take a reply that holds the text of an
  array of objects whose members have strings, or \<^verbatim>\<open>null\<close>, as their values, the objects
  with the four expected fields among them, with no opening bracket before the array and no
  closing bracket after it. Exactly the text of the array is handed to the decoder, the decoder
  accepts it, and the extractor returns the reviews that the text denotes, field for field:
  when an object names a field once, the field of the review is the string of that member
  (\<open>fieldOf_unique\<close>). \<^verbatim>\<open>json.Unmarshal\<close> is taken to be the decoder
  \<^const>\<open>unmarshalReviews\<close>.
\<close>

theorem extract_well_formed_array:
  assumes "GenerateFromSinglePrompt env (prompt sectionHTML) w = (Inr (pre @ writeArray t @ post), w')"
    and "validArray t"
    and "CHR ''['' \<notin> set pre" and "CHR '']'' \<notin> set post"
    and "Unmarshal env = unmarshalReviews"
  shows "extractReviewDataUsingLLM env sectionHTML w = (Inr (arrayReviews t), w')"
proof -
  have "Unmarshal env (''['' @ arrayBody t @ '']'') = Inr (arrayReviews t)"
    using unmarshalReviews_writeArray [OF assms(2)] assms(5) by (simp add: writeArray_def)
  with extract_array_text [OF _ assms(3,4) this, of sectionHTML w w'] assms(1)
  show ?thesis by (simp add: writeArray_def)
qed

theorem extract_well_formed_array_witness:
  \<open>extractReviewDataUsingLLM
     (replyEnv (''Here are the reviews:'' @ [CHR 0x0A] @ ''['' @ [CHR 0x0A]
        @ ''  {"title": "Great", "body": "Works [as sold]'' @ [CHR 0x5C] @ ''nGood", "rating": "5 stars", "reviewer": "Zo''
        @ [CHR 0x5C] @ ''u00eb"},'' @ [CHR 0x0A]
        @ ''  {"REVIEWER":"Bo","rating":null,"body":"Broke","title":"Meh"}'' @ [CHR 0x0A] @ '']'' @ [CHR 0x0A]
        @ ''Hope this helps!''))
     ''<div id="reviews"></div>'' (browser [])
   = (Inr [\<lparr>Title = ''Great'', Body = ''Works [as sold]'' @ [CHR 0x0A] @ ''Good'', Rating = ''5 stars'',
             Reviewer = ''Zo'' @ [CHR 0xC3, CHR 0xAB]\<rparr>,
           \<lparr>Title = ''Meh'', Body = ''Broke'', Rating = [], Reviewer = ''Bo''\<rparr>], browser [])\<close>
proof -
  let ?pre = "''Here are the reviews:'' @ [CHR 0x0A]"
  let ?post = "[CHR 0x0A] @ ''Hope this helps!''"
  let ?t = "Elements
    [Element ([CHR 0x0A] @ ''  '')
       (Members
          [Member [] [Raw ''title''] [] '' '' (StringValue [Raw ''Great'']) [],
           Member '' '' [Raw ''body''] [] '' '' (StringValue [Raw ''Works [as sold]'', Simple CHR ''n'', Raw ''Good'']) [],
           Member '' '' [Raw ''rating''] [] '' '' (StringValue [Raw ''5 stars'']) [],
           Member '' '' [Raw ''reviewer''] [] '' '' (StringValue [Raw ''Zo'', Unicode ''00eb'']) []]) [],
     Element ([CHR 0x0A] @ ''  '')
       (Members
          [Member [] [Raw ''REVIEWER''] [] [] (StringValue [Raw ''Bo'']) [],
           Member [] [Raw ''rating''] [] [] NullValue [],
           Member [] [Raw ''body''] [] [] (StringValue [Raw ''Broke'']) [],
           Member [] [Raw ''title''] [] [] (StringValue [Raw ''Meh'']) []]) [CHR 0x0A]]"
  let ?reply = \<open>''Here are the reviews:'' @ [CHR 0x0A] @ ''['' @ [CHR 0x0A]
        @ ''  {"title": "Great", "body": "Works [as sold]'' @ [CHR 0x5C] @ ''nGood", "rating": "5 stars", "reviewer": "Zo''
        @ [CHR 0x5C] @ ''u00eb"},'' @ [CHR 0x0A]
        @ ''  {"REVIEWER":"Bo","rating":null,"body":"Broke","title":"Meh"}'' @ [CHR 0x0A] @ '']'' @ [CHR 0x0A]
        @ ''Hope this helps!''\<close>
  have shape: "?reply = ?pre @ writeArray ?t @ ?post"
    by (simp add: writeArray_def writeLit_def)
  have h1: \<open>GenerateFromSinglePrompt (replyEnv ?reply) (prompt ''<div id="reviews"></div>'') (browser [])
      = (Inr (?pre @ writeArray ?t @ ?post), browser [])\<close>
    unfolding shape [symmetric] by (simp add: replyEnv_def simEnv_def)
  have h2: "validArray ?t" by code_simp
  have h3: "CHR ''['' \<notin> set ?pre" by simp
  have h4: "CHR '']'' \<notin> set ?post" by simp
  have h5: "Unmarshal (replyEnv ?reply) = unmarshalReviews" by (simp add: replyEnv_def simEnv_def)
  have val: "arrayReviews ?t
    = [\<lparr>Title = ''Great'', Body = ''Works [as sold]'' @ [CHR 0x0A] @ ''Good'', Rating = ''5 stars'',
             Reviewer = ''Zo'' @ [CHR 0xC3, CHR 0xAB]\<rparr>,
           \<lparr>Title = ''Meh'', Body = ''Broke'', Rating = [], Reviewer = ''Bo''\<rparr>]"
    by code_simp
  from extract_well_formed_array [OF h1 h2 h3 h4 h5] show ?thesis
    unfolding val .
qed

text \<open>
  The claim as stated fails on a reply that holds one well-formed array and a bracket after it
  or before it: the match extends to that bracket and the decoder rejects the text. It fails as
  well on an array whose objects give the rating as a number: the field is a string, and the
  decoder, like the library, rejects the number.
\<close>

theorem bracket_or_number_breaks_extraction:
  \<open>unmarshalReviews ''[{"title":"Great","body":"Works","rating":"5 stars","reviewer":"Ann"}]''
     = Inr [\<lparr>Title = ''Great'', Body = ''Works'', Rating = ''5 stars'', Reviewer = ''Ann''\<rparr>]
   \<and> FindString jsonRegex
       ''[{"title":"Great","body":"Works","rating":"5 stars","reviewer":"Ann"}] Note: ratings are on a scale of [1-5].''
     = ''[{"title":"Great","body":"Works","rating":"5 stars","reviewer":"Ann"}] Note: ratings are on a scale of [1-5]''
   \<and> (case fst (extractReviewDataUsingLLM
         (replyEnv ''[{"title":"Great","body":"Works","rating":"5 stars","reviewer":"Ann"}] Note: ratings are on a scale of [1-5].'')
         ''<div id="reviews"></div>'' (browser [])) of
         Inl err \<Rightarrow> take 29 err = ''failed to parse review JSON: ''
       | Inr reviews \<Rightarrow> False)
   \<and> FindString jsonRegex
       ''Ratings [1-5]: [{"title":"Great","body":"Works","rating":"5 stars","reviewer":"Ann"}]''
     = ''[1-5]: [{"title":"Great","body":"Works","rating":"5 stars","reviewer":"Ann"}]''
   \<and> (case fst (extractReviewDataUsingLLM
         (replyEnv ''Ratings [1-5]: [{"title":"Great","body":"Works","rating":"5 stars","reviewer":"Ann"}]'')
         ''<div id="reviews"></div>'' (browser [])) of
         Inl err \<Rightarrow> take 29 err = ''failed to parse review JSON: ''
       | Inr reviews \<Rightarrow> False)
   \<and> FindString jsonRegex ''[{"title":"Great","body":"Works","rating":5,"reviewer":"Ann"}]''
     = ''[{"title":"Great","body":"Works","rating":5,"reviewer":"Ann"}]''
   \<and> (case fst (extractReviewDataUsingLLM
         (replyEnv ''[{"title":"Great","body":"Works","rating":5,"reviewer":"Ann"}]'')
         ''<div id="reviews"></div>'' (browser [])) of
         Inl err \<Rightarrow> take 29 err = ''failed to parse review JSON: ''
       | Inr reviews \<Rightarrow> False)\<close>
  by code_simp


section \<open>Extraction failures\<close>

lemma extract_no_array:
  assumes "GenerateFromSinglePrompt env (prompt sectionHTML) w = (Inr response, w')"
    and "FindString jsonRegex response = []"
  shows "extractReviewDataUsingLLM env sectionHTML w = (Inl ''failed to extract JSON from response'', w')"
  using assms by (simp add: extractReviewDataUsingLLM_def)

lemma extract_unparseable:
  assumes "GenerateFromSinglePrompt env (prompt sectionHTML) w = (Inr response, w')"
    and "FindString jsonRegex response \<noteq> []"
    and "Unmarshal env (FindString jsonRegex response) = Inl err"
  shows "extractReviewDataUsingLLM env sectionHTML w = (Inl (''failed to parse review JSON: '' @ err), w')"
  using assms by (simp add: extractReviewDataUsingLLM_def)

lemma processReviewIDs_skips_failed_section:
  assumes "extractSectionByID doc ident = Some sec"
    and "extractReviewDataUsingLLM env (Render env sec) w = (Inl err, w')"
  shows "processReviewIDs env doc (ident # ids) allReviews w =
    processReviewIDs env doc ids allReviews
      (Log env (''Error extracting reviews for section '' @ ident @ '': '' @ err) w')"
  using assms by (simp add: renderNodeToString_def)

lemma processPage_error:
  assumes "processPage env pageSource allReviews w = (Some err, allReviews', w')"
  shows "\<exists>e. Parse env pageSource = Inl e \<and> err = ''error parsing HTML: '' @ e"
  using assms by (auto simp: processPage_def Let_def split: if_splits sum.splits prod.splits)

text \<open>
  C4. A reply without a bracketed array is claimed to give an extraction error that carries the
  raw reply. The extractor of the service returns a fixed message; the extractor of the
  standalone program puts the reply into the message. The other parts of the claim hold:
  \<open>extract_unparseable\<close> gives the parse error, \<open>processReviewIDs_skips_failed_section\<close> shows
  that the failed section is logged and skipped, and by \<open>processPage_error\<close> the callback
  fails only when the page cannot be parsed.
\<close>

theorem extraction_error_omits_reply:
  \<open>extractReviewDataUsingLLM (replyEnv ''I could not find any reviews.'') ''<div id="reviews"></div>'' (browser [])
     = (Inl ''failed to extract JSON from response'', browser [])
   \<and> fst (extractReviewDataUsingLLM_main (replyEnv ''I could not find any reviews.'') ''<div id="reviews"></div>''
          (browser []))
     = Inl ''failed to extract JSON from response: I could not find any reviews.''\<close>
  by code_simp


section \<open>Candidates without an element\<close>

text \<open>
  C10. The pattern is not anchored at the attribute name, and it runs on the raw text: a
  \<open>data-id\<close> attribute and an \<open>id=\<close> inside a comment or a script are matched. Isolation
  finds nothing exactly when no element of the tree has the candidate as its id; the candidate
  is then logged and skipped, and the accumulated reviews are passed on unchanged.
\<close>

theorem unmatched_candidate_is_skipped:
  \<open>''reviews-x'' \<in> set (findReviewIDs rank ''<div data-id='reviews-x'></div>'')
   \<and> set (findReviewIDs rank ''<!-- <div id="old-reviews"> --><script>var s = "<p id='review-box'>";</script>'')
       = {''old-reviews'', ''review-box''}
   \<and> (extractSectionByID doc ident = None \<longleftrightarrow> \<not> list_ex (hasID ident) (nodes doc))
   \<and> (\<not> list_ex (hasID ident) (nodes doc) \<longrightarrow>
        processReviewIDs env doc (ident # ids) allReviews w
          = processReviewIDs env doc ids allReviews (Log env (''Section with id '' @ ident @ '' not found'') w)
        \<and> processReviewIDs env doc [ident] allReviews w
          = (allReviews, Log env (''Section with id '' @ ident @ '' not found'') w))
   \<and> (Parse env pageSource = Inr doc \<longrightarrow> fst (processPage env pageSource allReviews w) = None)\<close>
proof -
  have a: \<open>findReviewIDs_main ''<div data-id='reviews-x'></div>'' = [''reviews-x'']\<close>
    by code_simp
  have b: \<open>findReviewIDs_main ''<!-- <div id="old-reviews"> --><script>var s = "<p id='review-box'>";</script>''
     = [''old-reviews'', ''review-box'']\<close>
    by code_simp
  have c: "extractSectionByID doc ident = None \<longleftrightarrow> \<not> list_ex (hasID ident) (nodes doc)"
    by (simp add: extractSectionByID_def traverse_fold fold_Some_last outerMatches_empty)
  have d: "Parse env pageSource = Inr doc \<longrightarrow> fst (processPage env pageSource allReviews w) = None"
    by (simp add: processPage_def Let_def split: prod.splits)
  show ?thesis
    unfolding set_findReviewIDs a b using c d by auto
qed

theorem unmatched_candidate_is_skipped_witness:
  \<open>processReviewIDs dataIdEnv dataIdDoc [''reviews-x''] [] (browser [])
     = ([], \<lparr>pages = [], logged = [''Section with id reviews-x not found''], printed = []\<rparr>)
   \<and> fst (processPage dataIdEnv ''<div data-id='reviews-x'></div>'' [] (browser [])) = None\<close>
proof -
  have h: "\<not> list_ex (hasID ''reviews-x'') (nodes dataIdDoc)"
    by code_simp
  have p: \<open>Parse dataIdEnv ''<div data-id='reviews-x'></div>'' = Inr dataIdDoc\<close>
    by (simp add: dataIdEnv_def simEnv_def)
  have l: "Log dataIdEnv (''Section with id '' @ ''reviews-x'' @ '' not found'') (browser [])
    = \<lparr>pages = [], logged = [''Section with id reviews-x not found''], printed = []\<rparr>"
    by code_simp
  note inst = unmatched_candidate_is_skipped
    [of insertionOrder dataIdDoc "''reviews-x''" dataIdEnv "[]" "[]" "browser []"
      \<open>''<div data-id='reviews-x'></div>''\<close>]
  from inst h have "processReviewIDs dataIdEnv dataIdDoc [''reviews-x''] [] (browser [])
    = ([], Log dataIdEnv (''Section with id '' @ ''reviews-x'' @ '' not found'') (browser []))"
    by blast
  moreover from inst p
  have \<open>fst (processPage dataIdEnv ''<div data-id='reviews-x'></div>'' [] (browser [])) = None\<close>
    by blast
  ultimately show ?thesis by (simp only: l)
qed


section \<open>The pagination loop, cycle by cycle\<close>

lemma loopBody_scroll:
  "scrollFetch env pp a w = Some (new, a', w') \<Longrightarrow>
   loopBody env pp prev a w = (if new = prev then Break else Continue new, a', w')"
  by (auto simp: scrollFetch_def loopBody_def split: prod.splits sum.splits option.splits)

lemma loopBody_click:
  "clickAdvance env pp a w = Some (a', w') \<Longrightarrow> loopBody env pp prev a w = (Continue prev, a', w')"
  by (auto simp: clickAdvance_def loopBody_def split: prod.splits sum.splits option.splits)

lemma loopBody_Continue:
  "loopBody env pp prev a w = (Continue p', a', w') \<Longrightarrow>
   (clickAdvance env pp a w = Some (a', w') \<and> p' = prev)
   \<or> (scrollFetch env pp a w = Some (p', a', w') \<and> p' \<noteq> prev)"
  by (auto simp: clickAdvance_def scrollFetch_def loopBody_def
      split: prod.splits sum.splits option.splits if_splits)

lemma loopBody_Break:
  "loopBody env pp prev a w = (Break, a', w') \<Longrightarrow> scrollFetch env pp a w = Some (prev, a', w')"
  by (auto simp: scrollFetch_def loopBody_def split: prod.splits sum.splits option.splits if_splits)

lemma cycleState_loop:
  "cycleState n env pp prev a w = Some (prev', a', w') \<Longrightarrow>
   handlePaginationLoop env pp prev a w = handlePaginationLoop env pp prev' a' w'"
proof (induction n arbitrary: prev a w)
  case 0
  then show ?case by simp
next
  case (Suc n)
  then obtain p1 a1 w1 where body: "loopBody env pp prev a w = (Continue p1, a1, w1)"
    and rest: "cycleState n env pp p1 a1 w1 = Some (prev', a', w')"
    by (auto split: prod.splits outcome.splits)
  have "handlePaginationLoop env pp prev a w = handlePaginationLoop env pp p1 a1 w1"
    by (subst handlePaginationLoop.simps) (simp add: body)
  with Suc.IH [OF rest] show ?case by simp
qed

lemma cycleState_end:
  "cycleState (Suc n) env pp prev a w =
     (case cycleState n env pp prev a w of
        None \<Rightarrow> None
      | Some (p, b, v) \<Rightarrow> cycleState (Suc 0) env pp p b v)"
proof (induction n arbitrary: prev a w)
  case 0
  then show ?case by simp
next
  case (Suc n)
  show ?case
  proof (cases "loopBody env pp prev a w")
    case (fields out a1 w1)
    then show ?thesis
      using Suc.IH by (cases out) (simp_all del: cycleState.simps(2) add: cycleState.simps(2) [of "Suc n"] cycleState.simps(2) [of n])
  qed
qed

lemma loop_Some_cycle:
  assumes "handlePaginationLoop env pp prev a w = Some r"
  shows "\<exists>n p b v. cycleState n env pp prev a w = Some (p, b, v) \<and> stopsWith env pp p b v r"
proof (rule handlePaginationLoop.raw_induct
    [where P = "\<lambda>env pp prev a w r. \<exists>n p b v. cycleState n env pp prev a w = Some (p, b, v)
                  \<and> stopsWith env pp p b v r", OF _ assms], goal_cases)
  case (1 loop env pp prev a w r)
  show ?case
  proof (cases "loopBody env pp prev a w")
    case (fields out a1 w1)
    show ?thesis
    proof (cases out)
      case (Return err)
      with fields 1(2) have "stopsWith env pp prev a w r" by (simp add: stopsWith_def)
      moreover have "cycleState 0 env pp prev a w = Some (prev, a, w)" by simp
      ultimately show ?thesis by blast
    next
      case Break
      with fields 1(2) have "stopsWith env pp prev a w r" by (simp add: stopsWith_def)
      moreover have "cycleState 0 env pp prev a w = Some (prev, a, w)" by simp
      ultimately show ?thesis by blast
    next
      case (Continue p1)
      with fields 1(2) have "loop env pp p1 a1 w1 = Some r" by simp
      from 1(1) [OF this] obtain n p b v where
        "cycleState n env pp p1 a1 w1 = Some (p, b, v)" and stop: "stopsWith env pp p b v r"
        by blast
      with fields Continue have "cycleState (Suc n) env pp prev a w = Some (p, b, v)" by simp
      with stop show ?thesis by blast
    qed
  qed
qed

lemma stopsWith_loop:
  "stopsWith env pp prev a w r \<Longrightarrow> handlePaginationLoop env pp prev a w = Some r"
  by (subst handlePaginationLoop.simps) (auto simp: stopsWith_def split: prod.splits outcome.splits)

lemma stopsWith_cycle:
  "stopsWith env pp prev a w r \<Longrightarrow> cycleState (Suc 0) env pp prev a w = None"
  by (auto simp: stopsWith_def split: prod.splits outcome.splits)

lemma loop_diverges:
  assumes "\<And>n. cycleState n env pp prev a w \<noteq> None"
  shows "handlePaginationLoop env pp prev a w = None"
proof (rule ccontr)
  assume "handlePaginationLoop env pp prev a w \<noteq> None"
  then obtain r where "handlePaginationLoop env pp prev a w = Some r" by auto
  from loop_Some_cycle [OF this] obtain n p b v where
    st: "cycleState n env pp prev a w = Some (p, b, v)" and stop: "stopsWith env pp p b v r"
    by blast
  from stopsWith_cycle [OF stop] st have "cycleState (Suc n) env pp prev a w = None"
    by (simp add: cycleState_end del: cycleState.simps)
  with assms show False by blast
qed

lemma moves_append:
  "moves env pp a w (ms @ ns) =
     (case moves env pp a w ms of None \<Rightarrow> None | Some (a1, w1) \<Rightarrow> moves env pp a1 w1 ns)"
proof (induction ms arbitrary: a w)
  case Nil
  show ?case by simp
next
  case (Cons m ms)
  show ?case by (cases m) (auto simp: Cons.IH split: option.splits)
qed

lemma scrolled_append: "scrolled (ms @ ns) = scrolled ms @ scrolled ns"
  by (induction ms rule: scrolled.induct) simp_all

lemma moves_cycle:
  "moves env pp a w ms = Some (a1, w1) \<Longrightarrow> distinct_adj (p # scrolled ms) \<Longrightarrow>
   cycleState (length ms) env pp p a w = Some (last (p # scrolled ms), a1, w1)"
proof (induction ms arbitrary: p a w)
  case Nil
  then show ?case by simp
next
  case (Cons m ms)
  show ?case
  proof (cases m)
    case Clicked
    with Cons.prems(1) obtain a' w' where
      click: "clickAdvance env pp a w = Some (a', w')" and rest: "moves env pp a' w' ms = Some (a1, w1)"
      by (auto split: option.splits)
    from Cons.prems(2) Clicked have adj: "distinct_adj (p # scrolled ms)" by simp
    from loopBody_click [OF click, of p] Cons.IH [OF rest adj] Clicked show ?thesis by simp
  next
    case (Scrolled s)
    with Cons.prems(1) obtain a' w' where
      fetch: "scrollFetch env pp a w = Some (s, a', w')" and rest: "moves env pp a' w' ms = Some (a1, w1)"
      by (auto split: option.splits if_splits)
    from Cons.prems(2) Scrolled have neq: "s \<noteq> p" and adj: "distinct_adj (s # scrolled ms)" by auto
    from loopBody_scroll [OF fetch, of p] neq
    have body: "loopBody env pp p a w = (Continue s, a', w')" by simp
    from Cons.IH [OF rest adj] body Scrolled show ?thesis by simp
  qed
qed

lemma cycle_moves:
  "cycleState n env pp p a w = Some (p', a1, w1) \<Longrightarrow>
   \<exists>ms. length ms = n \<and> moves env pp a w ms = Some (a1, w1) \<and> distinct_adj (p # scrolled ms)
     \<and> p' = last (p # scrolled ms)"
proof (induction n arbitrary: p a w)
  case 0
  then have "moves env pp a w [] = Some (a1, w1) \<and> distinct_adj (p # scrolled []) \<and> p' = last (p # scrolled [])"
    by simp
  then show ?case by blast
next
  case (Suc n)
  then obtain q a' w' where body: "loopBody env pp p a w = (Continue q, a', w')"
    and rest: "cycleState n env pp q a' w' = Some (p', a1, w1)"
    by (auto split: prod.splits outcome.splits)
  from Suc.IH [OF rest] obtain ms where len: "length ms = n"
    and mv: "moves env pp a' w' ms = Some (a1, w1)"
    and adj: "distinct_adj (q # scrolled ms)" and p': "p' = last (q # scrolled ms)" by blast
  from loopBody_Continue [OF body] show ?case
  proof
    assume "clickAdvance env pp a w = Some (a', w') \<and> q = p"
    with len mv adj p'
    have "length (Clicked # ms) = Suc n \<and> moves env pp a w (Clicked # ms) = Some (a1, w1)
      \<and> distinct_adj (p # scrolled (Clicked # ms)) \<and> p' = last (p # scrolled (Clicked # ms))"
      by simp
    then show ?thesis by blast
  next
    assume "scrollFetch env pp a w = Some (q, a', w') \<and> q \<noteq> p"
    with len mv adj p'
    have "length (Scrolled q # ms) = Suc n \<and> moves env pp a w (Scrolled q # ms) = Some (a1, w1)
      \<and> distinct_adj (p # scrolled (Scrolled q # ms)) \<and> p' = last (p # scrolled (Scrolled q # ms))"
      by auto
    then show ?thesis by blast
  qed
qed

lemma moves_stop:
  assumes mv: "moves env pp a w (ms @ [Scrolled s]) = Some (a', w')"
    and adj: "distinct_adj ([] # scrolled ms)" and rep: "s = baseline ms"
  shows "handlePagination env pp a w = Some (None, a', w')"
proof -
  from mv obtain a1 w1 where pre: "moves env pp a w ms = Some (a1, w1)"
    and fetch: "scrollFetch env pp a1 w1 = Some (s, a', w')"
    by (auto simp: moves_append split: option.splits if_splits)
  from moves_cycle [OF pre adj]
  have st: "cycleState (length ms) env pp [] a w = Some (baseline ms, a1, w1)"
    by (simp add: baseline_def)
  from loopBody_scroll [OF fetch, of "baseline ms"] rep
  have "stopsWith env pp (baseline ms) a1 w1 (None, a', w')" by (simp add: stopsWith_def)
  from stopsWith_loop [OF this] cycleState_loop [OF st]
  show ?thesis by (simp add: handlePagination_def)
qed

lemma stop_moves:
  assumes "handlePagination env pp a w = Some (None, a', w')"
  shows "\<exists>ms s. moves env pp a w (ms @ [Scrolled s]) = Some (a', w')
     \<and> distinct_adj ([] # scrolled ms) \<and> s = baseline ms"
proof -
  from assms have "handlePaginationLoop env pp [] a w = Some (None, a', w')"
    by (simp add: handlePagination_def)
  from loop_Some_cycle [OF this] obtain n p b v where
    st: "cycleState n env pp [] a w = Some (p, b, v)" and
    stop: "stopsWith env pp p b v (None, a', w')" by blast
  from stop have "loopBody env pp p b v = (Break, a', w')"
    by (auto simp: stopsWith_def split: prod.splits outcome.splits)
  from loopBody_Break [OF this] have fetch: "scrollFetch env pp b v = Some (p, a', w')" .
  from cycle_moves [OF st] obtain ms where mv: "moves env pp a w ms = Some (b, v)"
    and adj: "distinct_adj ([] # scrolled ms)" and p: "p = last ([] # scrolled ms)" by blast
  from mv fetch have "moves env pp a w (ms @ [Scrolled p]) = Some (a', w')"
    by (simp add: moves_append)
  with adj p show ?thesis unfolding baseline_def by blast
qed

text \<open>
  C1, as amended. Take a run from the start of the loop whose cycles so far advanced as \<open>ms\<close>
  lists, by click or by scroll, without ending the loop. The comparison baseline of the next
  cycle is \<open>baseline ms\<close>: the markup fetched after the last scroll of the run, whatever
  clicks have followed it, or the empty text when the run has not scrolled. When in that cycle
  the page source is fetched and processed, no selector finds a control, the scroll script runs
  and the markup is fetched again, the loop ends exactly when the new markup equals that
  baseline; otherwise it goes on with the new markup as the baseline. The snapshot processed at
  the top of the cycle, \<open>pageSource\<close>, takes no part in the comparison.
\<close>

theorem scroll_compares_with_previous_scroll_fetch:
  assumes "moves env pp a w ms = Some (a1, w1)" and "distinct_adj ([] # scrolled ms)"
    and "PageSource env w1 = (Inr pageSource, w2)"
    and "pp pageSource a1 w2 = (None, a3, w3)"
    and "findNext env nextSelectors w3 = (None, w4)"
    and "ExecuteScript env scrollScript w4 = (None, w5)"
    and "PageSource env (Sleep env 2 w5) = (Inr newPageSource, w6)"
  shows "cycleState (length ms) env pp [] a w = Some (baseline ms, a1, w1)
    \<and> loopBody env pp (baseline ms) a1 w1
        = (if newPageSource = baseline ms then Break else Continue newPageSource, a3, w6)
    \<and> handlePagination env pp a w =
        (if newPageSource = baseline ms then Some (None, a3, w6)
         else handlePaginationLoop env pp newPageSource a3 w6)"
proof -
  from moves_cycle [OF assms(1,2)]
  have st: "cycleState (length ms) env pp [] a w = Some (baseline ms, a1, w1)"
    by (simp add: baseline_def)
  have body: "loopBody env pp (baseline ms) a1 w1
        = (if newPageSource = baseline ms then Break else Continue newPageSource, a3, w6)"
    using assms(3-7) by (simp add: loopBody_def)
  have "handlePaginationLoop env pp (baseline ms) a1 w1 =
        (if newPageSource = baseline ms then Some (None, a3, w6)
         else handlePaginationLoop env pp newPageSource a3 w6)"
    by (subst handlePaginationLoop.simps) (simp add: body)
  with cycleState_loop [OF st] have "handlePagination env pp a w =
        (if newPageSource = baseline ms then Some (None, a3, w6)
         else handlePaginationLoop env pp newPageSource a3 w6)"
    by (simp add: handlePagination_def)
  with st body show ?thesis by simp
qed

theorem scroll_compares_with_previous_scroll_fetch_witness:
  "cycleState 2 mixedEnv skipPage [] []
       (browser [''<p>1</p>'', ''<p>1</p><p>2</p><a class=pagination-next>next</a>'', ''<p>3</p>'',
                 ''<p>1</p><p>2</p><a class=pagination-next>next</a>''])
     = Some (''<p>1</p><p>2</p><a class=pagination-next>next</a>'', [],
             browser [''<p>3</p>'', ''<p>1</p><p>2</p><a class=pagination-next>next</a>''])
   \<and> loopBody mixedEnv skipPage ''<p>1</p><p>2</p><a class=pagination-next>next</a>'' []
       (browser [''<p>3</p>'', ''<p>1</p><p>2</p><a class=pagination-next>next</a>''])
     = (Break, [], browser [''<p>1</p><p>2</p><a class=pagination-next>next</a>''])
   \<and> handlePagination mixedEnv skipPage []
       (browser [''<p>1</p>'', ''<p>1</p><p>2</p><a class=pagination-next>next</a>'', ''<p>3</p>'',
                 ''<p>1</p><p>2</p><a class=pagination-next>next</a>''])
     = Some (None, [], browser [''<p>1</p><p>2</p><a class=pagination-next>next</a>''])"
proof -
  let ?B = "''<p>1</p><p>2</p><a class=pagination-next>next</a>''"
  let ?w0 = "browser [''<p>1</p>'', ?B, ''<p>3</p>'', ?B]"
  let ?w1 = "browser [''<p>3</p>'', ?B]"
  let ?ms = "[Scrolled ?B, Clicked]"
  have h1: "moves mixedEnv skipPage [] ?w0 ?ms = Some ([], ?w1)" by code_simp
  have h2: "distinct_adj ([] # scrolled ?ms)" by simp
  have h3: "PageSource mixedEnv ?w1 = (Inr ''<p>3</p>'', ?w1)" by code_simp
  have h4: "skipPage ''<p>3</p>'' [] ?w1 = (None, [], ?w1)" by code_simp
  have h5: "findNext mixedEnv nextSelectors ?w1 = (None, ?w1)" by code_simp
  have h6: "ExecuteScript mixedEnv scrollScript ?w1 = (None, browser [?B])" by code_simp
  have h7: "PageSource mixedEnv (Sleep mixedEnv 2 (browser [?B])) = (Inr ?B, browser [?B])" by code_simp
  have b: "baseline ?ms = ?B" by (simp add: baseline_def)
  show ?thesis
    using scroll_compares_with_previous_scroll_fetch [where pp = skipPage, OF h1 h2 h3 h4 h5 h6 h7]
    unfolding b by (simp add: numeral_2_eq_2)
qed

text \<open>
  The claim as stated fails on a page that scrolling does not change: in the first cycle the
  markup fetched after the scroll is the snapshot processed at the top of that cycle, and the
  loop continues.
\<close>

theorem scroll_fetch_equal_to_cycle_start_continues:
  "PageSource scrollEnv (browser [''<p>one</p>'']) = (Inr ''<p>one</p>'', browser [''<p>one</p>''])
   \<and> scrollFetch scrollEnv (processPage scrollEnv) [] (browser [''<p>one</p>''])
       = Some (''<p>one</p>'', [], \<lparr>pages = [''<p>one</p>''], logged = [''No review sections found''], printed = []\<rparr>)
   \<and> loopBody scrollEnv (processPage scrollEnv) [] [] (browser [''<p>one</p>''])
       = (Continue ''<p>one</p>'', [],
          \<lparr>pages = [''<p>one</p>''], logged = [''No review sections found''], printed = []\<rparr>)"
  by code_simp

text \<open>
  C5, as amended. A run of the loop is described by its moves, clicks and scrolls in any order.
  The loop ends without an error exactly when the markup fetched after a scroll equals the
  markup fetched after the scroll before it, clicks in between left aside, or, at the first
  scroll of the run, the empty text: the run then reads \<open>ms @ [Scrolled s]\<close> where no scroll of
  \<open>ms\<close> repeated its predecessor and \<open>s\<close> is the baseline of \<open>ms\<close>. As long as no scroll
  repeats its predecessor the loop is still running, after any number of moves.
\<close>

theorem done_at_first_repeated_scroll_fetch:
  "(handlePagination env pp a w = Some (None, a', w') \<longleftrightarrow>
      (\<exists>ms s. moves env pp a w (ms @ [Scrolled s]) = Some (a', w')
         \<and> distinct_adj ([] # scrolled ms) \<and> s = baseline ms))
   \<and> (moves env pp a w ms = Some (a1, w1) \<and> distinct_adj ([] # scrolled ms) \<longrightarrow>
        cycleState (length ms) env pp [] a w = Some (baseline ms, a1, w1))"
proof (intro conjI iffI impI)
  assume "handlePagination env pp a w = Some (None, a', w')"
  from stop_moves [OF this]
  show "\<exists>ms s. moves env pp a w (ms @ [Scrolled s]) = Some (a', w')
         \<and> distinct_adj ([] # scrolled ms) \<and> s = baseline ms" .
next
  assume "\<exists>ms s. moves env pp a w (ms @ [Scrolled s]) = Some (a', w')
         \<and> distinct_adj ([] # scrolled ms) \<and> s = baseline ms"
  then obtain ms s where "moves env pp a w (ms @ [Scrolled s]) = Some (a', w')"
    "distinct_adj ([] # scrolled ms)" "s = baseline ms" by blast
  then show "handlePagination env pp a w = Some (None, a', w')" by (rule moves_stop)
next
  assume "moves env pp a w ms = Some (a1, w1) \<and> distinct_adj ([] # scrolled ms)"
  then show "cycleState (length ms) env pp [] a w = Some (baseline ms, a1, w1)"
    using moves_cycle [of env pp a w ms a1 w1 "[]"] by (simp add: baseline_def)
qed

theorem done_at_first_repeated_scroll_fetch_witness:
  "handlePagination mixedEnv skipPage []
       (browser [''<p>1</p>'', ''<p>1</p><p>2</p><a class=pagination-next>next</a>'', ''<p>3</p>'',
                 ''<p>3</p><p>4</p>'', ''<p>3</p><p>4</p>''])
     = Some (None, [], browser [''<p>3</p><p>4</p>''])
   \<and> cycleState 3 mixedEnv skipPage [] []
       (browser [''<p>1</p>'', ''<p>1</p><p>2</p><a class=pagination-next>next</a>'', ''<p>3</p>'',
                 ''<p>3</p><p>4</p>'', ''<p>3</p><p>4</p>''])
     = Some (''<p>3</p><p>4</p>'', [], browser [''<p>3</p><p>4</p>'', ''<p>3</p><p>4</p>''])"
proof -
  let ?B = "''<p>1</p><p>2</p><a class=pagination-next>next</a>''"
  let ?D = "''<p>3</p><p>4</p>''"
  let ?w0 = "browser [''<p>1</p>'', ?B, ''<p>3</p>'', ?D, ?D]"
  let ?ms = "[Scrolled ?B, Clicked, Scrolled ?D]"
  have h1: "moves mixedEnv skipPage [] ?w0 (?ms @ [Scrolled ?D]) = Some ([], browser [?D])" by code_simp
  have h2: "moves mixedEnv skipPage [] ?w0 ?ms = Some ([], browser [?D, ?D])" by code_simp
  have h3: "distinct_adj ([] # scrolled ?ms)" by simp
  have b: "baseline ?ms = ?D" by (simp add: baseline_def)
  note inst = done_at_first_repeated_scroll_fetch
    [of mixedEnv skipPage "[]" ?w0 "[]" "browser [?D]" ?ms "[]" "browser [?D, ?D]"]
  from h1 h3 b have "\<exists>ms s. moves mixedEnv skipPage [] ?w0 (ms @ [Scrolled s]) = Some ([], browser [?D])
         \<and> distinct_adj ([] # scrolled ms) \<and> s = baseline ms"
    by (intro exI [of _ ?ms] exI [of _ ?D]) simp
  with inst have "handlePagination mixedEnv skipPage [] ?w0 = Some (None, [], browser [?D])"
    by blast
  moreover from inst h2 h3 have "cycleState (length ?ms) mixedEnv skipPage [] [] ?w0
     = Some (baseline ?ms, [], browser [?D, ?D])" by blast
  ultimately show ?thesis unfolding b by (simp add: numeral_3_eq_3)
qed

text \<open>
  The claim as stated fails when the first markup fetched after a scroll is empty: the loop ends
  after a single scroll-triggered fetch, with no second one to repeat it.
\<close>

theorem empty_first_scroll_fetch_ends_loop:
  "scrollFetch scrollEnv skipPage [] (browser [''<p>1</p>'', []])
     = Some ([], [], browser [[]])
   \<and> handlePagination scrollEnv skipPage [] (browser [''<p>1</p>'', []])
     = Some (None, [], browser [[]])"
  by code_simp

text \<open>
  C9, as amended. The loop ends without an error only in a cycle that advances by scroll and
  fetches the comparison baseline again. A run in which every cycle either finds and clicks a
  control, or advances by scroll to a markup different from the baseline (the markup of the
  previous scroll, the empty text before the first), never returns; no fatal error is assumed.
\<close>

theorem handlePagination_unbounded:
  "(handlePagination env pp a0 w0 = Some (None, a', w') \<longrightarrow>
      (\<exists>n prev a w. cycleState n env pp [] a0 w0 = Some (prev, a, w)
         \<and> scrollFetch env pp a w = Some (prev, a', w')))
   \<and> ((\<forall>n prev a w. cycleState n env pp [] a0 w0 = Some (prev, a, w) \<longrightarrow>
          clickAdvance env pp a w \<noteq> None
          \<or> (\<exists>new a'' w''. scrollFetch env pp a w = Some (new, a'', w'') \<and> new \<noteq> prev))
       \<longrightarrow> handlePagination env pp a0 w0 = None)"
proof (intro conjI impI)
  assume "handlePagination env pp a0 w0 = Some (None, a', w')"
  then have "handlePaginationLoop env pp [] a0 w0 = Some (None, a', w')"
    by (simp add: handlePagination_def)
  from loop_Some_cycle [OF this] obtain n p b v where
    st: "cycleState n env pp [] a0 w0 = Some (p, b, v)" and
    stop: "stopsWith env pp p b v (None, a', w')" by blast
  from stop have "loopBody env pp p b v = (Break, a', w')"
    by (auto simp: stopsWith_def split: prod.splits outcome.splits)
  from loopBody_Break [OF this] st
  show "\<exists>n prev a w. cycleState n env pp [] a0 w0 = Some (prev, a, w)
         \<and> scrollFetch env pp a w = Some (prev, a', w')" by blast
next
  assume go: "\<forall>n prev a w. cycleState n env pp [] a0 w0 = Some (prev, a, w) \<longrightarrow>
          clickAdvance env pp a w \<noteq> None
          \<or> (\<exists>new a'' w''. scrollFetch env pp a w = Some (new, a'', w'') \<and> new \<noteq> prev)"
  have run: "cycleState n env pp [] a0 w0 \<noteq> None" for n
  proof (induction n)
    case 0
    show ?case by simp
  next
    case (Suc n)
    then obtain p b v where st: "cycleState n env pp [] a0 w0 = Some (p, b, v)" by auto
    from go st have "clickAdvance env pp b v \<noteq> None
      \<or> (\<exists>new a'' w''. scrollFetch env pp b v = Some (new, a'', w'') \<and> new \<noteq> p)" by blast
    then have "\<exists>p1 a1 w1. loopBody env pp p b v = (Continue p1, a1, w1)"
    proof
      assume "clickAdvance env pp b v \<noteq> None"
      then obtain a1 w1 where "clickAdvance env pp b v = Some (a1, w1)" by auto
      from loopBody_click [OF this] show ?thesis by blast
    next
      assume "\<exists>new a'' w''. scrollFetch env pp b v = Some (new, a'', w'') \<and> new \<noteq> p"
      then obtain new a1 w1 where "scrollFetch env pp b v = Some (new, a1, w1)" "new \<noteq> p" by blast
      with loopBody_scroll [of env pp b v new a1 w1 p] show ?thesis by simp
    qed
    then have "cycleState (Suc 0) env pp p b v \<noteq> None" by auto
    with st show ?case by (simp add: cycleState_end del: cycleState.simps)
  qed
  from loop_diverges [of env pp "[]" a0 w0] run
  show "handlePagination env pp a0 w0 = None" by (simp add: handlePagination_def)
qed

lemma clickEnv_cycle:
  "cycleState n clickEnv skipPage [] [] (browser [''<a class=pagination-next>next</a>''])
     = Some ([], [], browser [''<a class=pagination-next>next</a>''])"
proof (induction n)
  case 0
  show ?case by simp
next
  case (Suc n)
  have "loopBody clickEnv skipPage [] [] (browser [''<a class=pagination-next>next</a>''])
    = (Continue [], [], browser [''<a class=pagination-next>next</a>''])" by code_simp
  with Suc show ?case by simp
qed

theorem handlePagination_unbounded_witness:
  "handlePagination clickEnv skipPage [] (browser [''<a class=pagination-next>next</a>'']) = None
   \<and> (\<exists>n prev a w. cycleState n scrollEnv skipPage [] [] (browser [''<p>1</p>'']) = Some (prev, a, w)
         \<and> scrollFetch scrollEnv skipPage a w = Some (prev, [], browser [''<p>1</p>'']))"
proof -
  have click: "clickAdvance clickEnv skipPage [] (browser [''<a class=pagination-next>next</a>''])
    = Some ([], browser [''<a class=pagination-next>next</a>''])" by code_simp
  have go: "\<forall>n prev a w. cycleState n clickEnv skipPage [] [] (browser [''<a class=pagination-next>next</a>''])
              = Some (prev, a, w) \<longrightarrow>
          clickAdvance clickEnv skipPage a w \<noteq> None
          \<or> (\<exists>new a'' w''. scrollFetch clickEnv skipPage a w = Some (new, a'', w'') \<and> new \<noteq> prev)"
    using click by (simp add: clickEnv_cycle)
  have stop: "handlePagination scrollEnv skipPage [] (browser [''<p>1</p>''])
    = Some (None, [], browser [''<p>1</p>''])" by code_simp
  from handlePagination_unbounded
    [of clickEnv skipPage "[]" "browser [''<a class=pagination-next>next</a>'']"] go
  have "handlePagination clickEnv skipPage [] (browser [''<a class=pagination-next>next</a>'']) = None"
    by blast
  moreover from handlePagination_unbounded
    [of scrollEnv skipPage "[]" "browser [''<p>1</p>'']" "[]" "browser [''<p>1</p>'']"] stop
  have "\<exists>n prev a w. cycleState n scrollEnv skipPage [] [] (browser [''<p>1</p>'']) = Some (prev, a, w)
         \<and> scrollFetch scrollEnv skipPage a w = Some (prev, [], browser [''<p>1</p>''])"
    by blast
  ultimately show ?thesis by blast
qed

text \<open>
  The claim as stated fails on a run whose only scroll-fetched markup is empty: it differs from
  the markup fetched before it, and the loop ends all the same.
\<close>

theorem changing_scroll_fetch_ends_loop:
  "PageSource scrollEnv (browser [''<p>loading</p>'', []]) = (Inr ''<p>loading</p>'', browser [''<p>loading</p>'', []])
   \<and> scrollFetch scrollEnv (processPage scrollEnv) [] (browser [''<p>loading</p>'', []])
     = Some ([], [], \<lparr>pages = [[]], logged = [''No review sections found''], printed = []\<rparr>)
   \<and> handlePagination scrollEnv (processPage scrollEnv) [] (browser [''<p>loading</p>'', []])
     = Some (None, [], \<lparr>pages = [[]], logged = [''No review sections found''], printed = []\<rparr>)"
  by code_simp


section \<open>The order of the collected reviews\<close>

lemma processReviewIDs_acc:
  "processReviewIDs env doc ids acc w
   = (acc @ concat (sectionResults env doc ids w), snd (processReviewIDs env doc ids [] w))"
proof (induction ids arbitrary: acc w)
  case Nil
  show ?case by simp
next
  case (Cons ident ids)
  show ?case
  proof (cases "extractSectionByID doc ident")
    case None
    then show ?thesis
      using Cons.IH [of acc] Cons.IH [of "[]"] by simp
  next
    case (Some sec)
    show ?thesis
    proof (cases "extractReviewDataUsingLLM env (renderNodeToString env sec) w")
      case (Pair res w')
      show ?thesis
      proof (cases res)
        case (Inl err)
        with Some Pair show ?thesis
          using Cons.IH [of acc] Cons.IH [of "[]"] by simp
      next
        case (Inr reviews)
        with Some Pair show ?thesis
          using Cons.IH [of "acc @ reviews" w'] Cons.IH [of "reviews" w'] by simp
      qed
    qed
  qed
qed

lemma processPage_acc:
  "processPage env pageSource acc w
   = (fst (processPage env pageSource [] w), acc @ concat (pageResults env pageSource w),
      snd (snd (processPage env pageSource [] w)))"
proof (cases "Parse env pageSource")
  case (Inl err)
  then show ?thesis by (simp add: processPage_def pageResults_def Let_def)
next
  case (Inr doc)
  show ?thesis
  proof (cases "findReviewIDs (MapOrder env w) pageSource = []")
    case True
    with Inr show ?thesis by (simp add: processPage_def pageResults_def Let_def)
  next
    case False
    with Inr show ?thesis
      using processReviewIDs_acc [of env doc "findReviewIDs (MapOrder env w) pageSource" acc w]
      by (simp add: processPage_def pageResults_def Let_def split: prod.splits)
  qed
qed

lemma loopBody_acc:
  "loopBody env (processPage env) prev a w
   = (fst (loopBody env (processPage env) prev [] w), a @ cycleReviews env w,
      snd (snd (loopBody env (processPage env) prev [] w)))"
proof (cases "PageSource env w")
  case (Pair res w1)
  show ?thesis
  proof (cases res)
    case (Inl err)
    with Pair show ?thesis by (simp add: loopBody_def cycleReviews_def)
  next
    case (Inr src)
    obtain e r w2 where p0: "processPage env src [] w1 = (e, r, w2)"
      by (cases "processPage env src [] w1") auto
    with processPage_acc [of env src a w1]
    have pa: "processPage env src a w1 = (e, a @ concat (pageResults env src w1), w2)" by simp
    from processPage_acc [of env src "[]" w1] p0
    have r: "r = concat (pageResults env src w1)" by simp
    show ?thesis
      using Pair Inr p0 pa r
      by (simp add: loopBody_def cycleReviews_def split: prod.splits option.splits sum.splits)
  qed
qed

lemma runResults_one:
  "concat (map concat (runResults (Suc 0) env prev w)) = cycleReviews env w"
  by (simp add: cycleReviews_def split: prod.splits sum.splits outcome.splits)

lemma loopBody_Continue_fetches:
  "loopBody env pp prev a w = (Continue p1, a1, w1) \<Longrightarrow> \<exists>src w0. PageSource env w = (Inr src, w0)"
  by (auto simp: loopBody_def split: prod.splits sum.splits)

lemma cycle_results:
  "cycleState n env (processPage env) prev a w = Some (p', a', w') \<Longrightarrow>
   runResults (Suc n) env prev w = runResults n env prev w @ runResults (Suc 0) env p' w'
   \<and> a' = a @ concat (map concat (runResults n env prev w))"
proof (induction n arbitrary: prev a w)
  case 0
  then show ?case by simp
next
  case (Suc n)
  then obtain p1 a1 w1 where body: "loopBody env (processPage env) prev a w = (Continue p1, a1, w1)"
    and rest: "cycleState n env (processPage env) p1 a1 w1 = Some (p', a', w')"
    by (auto split: prod.splits outcome.splits)
  from loopBody_Continue_fetches [OF body] obtain src w0 where
    src: "PageSource env w = (Inr src, w0)" by blast
  from body loopBody_acc [of env prev a w] obtain r where
    body0: "loopBody env (processPage env) prev [] w = (Continue p1, r, w1)"
    and a1: "a1 = a @ cycleReviews env w"
    by (cases "loopBody env (processPage env) prev [] w") auto
  from src have cr: "cycleReviews env w = concat (pageResults env src w0)"
    by (simp add: cycleReviews_def)
  have unroll: "runResults (Suc m) env prev w = pageResults env src w0 # runResults m env p1 w1" for m
    using src body0 by simp
  from Suc.IH [OF rest] have
    ih1: "runResults (Suc n) env p1 w1 = runResults n env p1 w1 @ runResults (Suc 0) env p' w'" and
    ih2: "a' = a1 @ concat (map concat (runResults n env p1 w1))" by simp_all
  have "runResults (Suc (Suc n)) env prev w
    = runResults (Suc n) env prev w @ runResults (Suc 0) env p' w'"
    by (simp only: unroll ih1 append_Cons)
  moreover have "a' = a @ concat (map concat (runResults (Suc n) env prev w))"
    by (simp only: unroll ih2 a1 cr) simp
  ultimately show ?case by blast
qed

lemma loop_results:
  assumes "handlePaginationLoop env (processPage env) prev a w = Some (res, a', w')"
  shows "\<exists>n. a' = a @ concat (map concat (runResults n env prev w))"
proof -
  from loop_Some_cycle [OF assms] obtain n p b v where
    st: "cycleState n env (processPage env) prev a w = Some (p, b, v)" and
    stop: "stopsWith env (processPage env) p b v (res, a', w')" by blast
  from stop obtain out where "loopBody env (processPage env) p b v = (out, a', w')"
    by (auto simp: stopsWith_def split: prod.splits outcome.splits)
  with loopBody_acc [of env p b v] have "a' = b @ cycleReviews env v" by simp
  with cycle_results [OF st] runResults_one [of env p v]
  have "a' = a @ concat (map concat (runResults (Suc n) env prev w))" by simp
  then show ?thesis ..
qed

text \<open>
  C2, as amended. The reviews a scrape returns are the concatenation, cycle by cycle in the order
  of the cycles, of what each processed snapshot contributes, and a snapshot contributes, section
  by section, the reviews of its candidates in the order \<^const>\<open>findReviewIDs\<close> lists them
  (\<^const>\<open>runResults\<close>, \<^const>\<open>pageResults\<close>, \<^const>\<open>sectionResults\<close>). That list holds
  every matched id once, in the order in which the map of ids is enumerated.
\<close>

theorem ScrapeReviews_order:
  "(ScrapeReviews env url w = Some (Inr reviews, w') \<longrightarrow>
      (\<exists>n w1 w2. Get env url w = (None, w1) \<and> SetImplicitWaitTimeout env pageLoadTimeout w1 = (None, w2)
         \<and> reviews = concat (map concat (runResults n env [] w2))))
   \<and> set (findReviewIDs rank pageSource) = set (findReviewIDs_main pageSource)
   \<and> distinct (findReviewIDs rank pageSource)"
proof (intro conjI impI)
  assume run: "ScrapeReviews env url w = Some (Inr reviews, w')"
  then obtain w1 where g: "Get env url w = (None, w1)"
    by (auto simp: ScrapeReviews_def split: prod.splits option.splits)
  with run obtain w2 where t: "SetImplicitWaitTimeout env pageLoadTimeout w1 = (None, w2)"
    by (auto simp: ScrapeReviews_def split: prod.splits option.splits)
  with run g have "handlePaginationLoop env (processPage env) [] [] w2 = Some (None, reviews, w')"
    by (auto simp: ScrapeReviews_def handlePagination_def split: prod.splits option.splits)
  from loop_results [OF this] obtain n where
    "reviews = concat (map concat (runResults n env [] w2))" by auto
  with g t show "\<exists>n w1 w2. Get env url w = (None, w1)
      \<and> SetImplicitWaitTimeout env pageLoadTimeout w1 = (None, w2)
      \<and> reviews = concat (map concat (runResults n env [] w2))" by blast
qed (simp_all add: set_findReviewIDs findReviewIDs_distinct)

text \<open>
  The claim as stated fails: with the same snapshots and the same replies, two enumeration orders
  of the map give two different results, and in the second the reviews of the candidate that
  occurs first in the markup come last.
\<close>

theorem review_order_depends_on_map_iteration:
  "findReviewIDs_main pageAB = [''review-a'', ''review-b'']
   \<and> ScrapeReviews (envAB insertionOrder) ''https://shop.example/p'' (browser [''<p>loading</p>'', pageAB])
     = Some (Inr [reviewOfA, reviewOfB],
             \<lparr>pages = [pageAB], logged = [''No review sections found''], printed = []\<rparr>)
   \<and> ScrapeReviews (envAB reviewA_last) ''https://shop.example/p'' (browser [''<p>loading</p>'', pageAB])
     = Some (Inr [reviewOfB, reviewOfA],
             \<lparr>pages = [pageAB], logged = [''No review sections found''], printed = []\<rparr>)"
  by code_simp

theorem ScrapeReviews_order_witness:
  "\<exists>n w1 w2. Get (envAB reviewA_last) ''https://shop.example/p'' (browser [''<p>loading</p>'', pageAB]) = (None, w1)
     \<and> SetImplicitWaitTimeout (envAB reviewA_last) pageLoadTimeout w1 = (None, w2)
     \<and> [reviewOfB, reviewOfA] = concat (map concat (runResults n (envAB reviewA_last) [] w2))"
proof -
  have "ScrapeReviews (envAB reviewA_last) ''https://shop.example/p'' (browser [''<p>loading</p>'', pageAB])
     = Some (Inr [reviewOfB, reviewOfA],
             \<lparr>pages = [pageAB], logged = [''No review sections found''], printed = []\<rparr>)"
    by code_simp
  with ScrapeReviews_order [of "envAB reviewA_last" "''https://shop.example/p''"
      "browser [''<p>loading</p>'', pageAB]" "[reviewOfB, reviewOfA]"
      "\<lparr>pages = [pageAB], logged = [''No review sections found''], printed = []\<rparr>"]
  show ?thesis by blast
qed


end
